theory Spec2Isabelle
  imports Complex_Main "HOL-Library.AList"
begin

section \<open>Conventions of the embedding\<close>

text \<open>
  The chamber simulation exists in three places: the seeded engine
  (\<^verbatim>\<open>simulation/engine.ts\<close>: \<^verbatim>\<open>runSimulation\<close>, with \<^verbatim>\<open>rng.ts\<close>, \<^verbatim>\<open>agents.ts\<close> and
  \<^verbatim>\<open>debate.ts\<close>) and two revisions of the browser orchestrator \<^verbatim>\<open>runSimulationClient\<close>
  (\<^verbatim>\<open>lib/simulation.ts\<close>).

  \<^item> JavaScript numbers that only count or index are \<open>int\<close>; numbers that are measured
    (lean, ideology, weights, thresholds, draws of \<^verbatim>\<open>Math.random\<close>) are exact \<open>real\<close>s.
    Where the code rounds such a number in double precision, its value can differ from the
    real one in the last place, and a comparison of two numbers that close can come out
    the other way (an ideology of \<open>-0.1\<close> is such a case).  The state of the seeded
    generator is a whole number, and its rounding is modelled.
  \<^item> Strings are \<open>string\<close>s of one-byte characters; white space is the white space of
    ASCII.
  \<^item> A thrown exception is \<open>Inl\<close> of a \<open>js_error\<close> (\<open>EngineError\<close> is whatever the
    text-generation engine threw); a read that yields \<^verbatim>\<open>undefined\<close> is \<open>None\<close>.
  \<^item> \<^verbatim>\<open>Math.random\<close>, the text-generation engine and \<^verbatim>\<open>fetch\<close> are outside the program.
    Their successive answers are streams (functions of the call number) in an environment
    record; the program state holds how many answers have been consumed.  The prompts sent
    to the engine are not modelled: a stream of arbitrary answers covers every way the
    answers could depend on them.
  \<^item> Observer callbacks (\<^verbatim>\<open>onSpeech\<close>, \<^verbatim>\<open>onRoundComplete\<close>, \<^verbatim>\<open>onPhase\<close>, \<^verbatim>\<open>onInit\<close>,
    \<^verbatim>\<open>onVoteUpdate\<close>) and console output are left out.
\<close>

datatype js_error = Error string | TypeError string | EngineError

definition js_index :: "'a list \<Rightarrow> int \<Rightarrow> 'a option" where
  \<comment> \<open>\<^verbatim>\<open>xs[i]\<close>: \<^verbatim>\<open>undefined\<close> outside the array.\<close>
  "js_index xs i = (if 0 \<le> i \<and> i < int (length xs) then Some (xs ! nat i) else None)"

definition js_rem :: "int \<Rightarrow> int \<Rightarrow> int" where
  \<comment> \<open>\<^verbatim>\<open>a % m\<close> on integers: the remainder takes the sign of the dividend.\<close>
  "js_rem a m = sgn a * (\<bar>a\<bar> mod \<bar>m\<bar>)"

section \<open>Data model (\<^verbatim>\<open>api.ts\<close>, \<^verbatim>\<open>lib/simulation.ts\<close>)\<close>

record District =
  district_id :: string
  name :: string
  lean :: real
  population :: real
  weights :: "(string \<times> real) list"
  description :: "string option"
  industries :: "string list option"
  demographics_text :: "string option"

record DistrictSummary =
  source :: string
  count :: int
  sample :: "District list"

record Bill =
  title :: string
  summary :: string
  text_content :: "string option"
  issue_vector :: "(string \<times> real) list"

datatype Stance = support | oppose | amend

text \<open>
  The string literals \<^verbatim>\<open>"yes" | "no" | "abstain"\<close> of a roll-call entry.  (The same words,
  in lower case, are the count fields of a tally.)
\<close>

datatype ballot = Yes | No | Abstain

text \<open>
  \<^verbatim>\<open>Member\<close> and \<^verbatim>\<open>Speech\<close> both have a field \<^verbatim>\<open>member_id\<close>; the shared field is a parent
  record, so that one selector serves both.  The field \<^verbatim>\<open>text\<close> of a speech is \<open>text'\<close>.
\<close>

record has_member_id =
  member_id :: string

record Member = has_member_id +
  district :: District
  ideology :: real
  party_hint :: string

record Speech = has_member_id +
  stance :: Stance
  text' :: string
  rationale :: "(string \<times> real) list"

text \<open>
  The tally type of \<^verbatim>\<open>api.ts\<close> (used by the engine) has no roll-call; the tally type of
  \<^verbatim>\<open>lib/simulation.ts\<close> adds it.  Likewise the client's round adds the optional amendment
  and the client's result adds the notes.
\<close>

record ApiVote =
  yes :: int
  no :: int
  abstain :: int
  passed :: bool
  threshold :: real

record Vote = ApiVote +
  rollCall :: "(string \<times> ballot) list"

record 'v ApiRound =
  round_index :: int
  speeches :: "Speech list"
  vote :: 'v

record Round = "Vote ApiRound" +
  amendment :: "string option"

record ('m, 'r) SimulationResult =
  members :: 'm
  rounds :: "'r list"
  final_passed :: bool

record SimResult = "(Member list, Round) SimulationResult" +
  notes' :: "string list"

record SimOptions =
  bill :: Bill
  districtSummary :: DistrictSummary
  numMembers :: int
  rounds_opt :: int
  useLlm :: bool
  llmConfig :: "string option"
  seed_opt :: "int option"
  parallelLimit :: "nat option"

text \<open>
  The field \<^verbatim>\<open>notes\<close> of a result is \<open>notes'\<close>.  In \<^verbatim>\<open>SimOptions\<close> the fields \<^verbatim>\<open>rounds\<close> and \<^verbatim>\<open>seed\<close> are \<open>rounds_opt\<close> and \<open>seed_opt\<close>, and
  \<^verbatim>\<open>llmConfig\<close> is reduced to its model name.  \<^verbatim>\<open>parallelLimit\<close> exists in the second
  revision only and is a natural number when given.
\<close>

section \<open>The world outside the program\<close>

text \<open>
  A chat completion of the in-browser engine either throws (the call rejects, or the reply
  has no \<^verbatim>\<open>choices[0].message\<close>) or carries \<^verbatim>\<open>content\<close>, which may be \<^verbatim>\<open>null\<close>.

  A request to the local generation endpoint either rejects (in \<^verbatim>\<open>fetch\<close> or in
  \<^verbatim>\<open>r.json()\<close>, or the body is \<^verbatim>\<open>null\<close>) or yields the flag \<^verbatim>\<open>r.ok\<close> and the field
  \<^verbatim>\<open>data.response\<close>, \<open>None\<close> when that is not a string.
\<close>

datatype completion = Throws | Content "string option"

datatype generate_reply = Rejects | Response bool "string option"

datatype json = JNull | JBool bool | JNum real | JStr string
  | JArr "json list" | JObj "(string \<times> json) list"

record env =
  math_random :: "nat \<Rightarrow> real"
  chat :: "nat \<Rightarrow> completion"
  reload_fails :: bool
  fetch_generate :: "nat \<Rightarrow> generate_reply"
  JSON_parse :: "string \<Rightarrow> json option"
  Date_now :: int

record world =
  random_calls :: nat
  chat_calls :: nat
  fetch_calls :: nat

definition Math_random :: "env \<Rightarrow> world \<Rightarrow> real \<times> world" where
  "Math_random e w = (math_random e (random_calls w), w\<lparr>random_calls := Suc (random_calls w)\<rparr>)"

definition chat_create :: "env \<Rightarrow> world \<Rightarrow> completion \<times> world" where
  "chat_create e w = (chat e (chat_calls w), w\<lparr>chat_calls := Suc (chat_calls w)\<rparr>)"

definition fetch :: "env \<Rightarrow> world \<Rightarrow> generate_reply \<times> world" where
  "fetch e w = (fetch_generate e (fetch_calls w), w\<lparr>fetch_calls := Suc (fetch_calls w)\<rparr>)"

section \<open>String helpers\<close>

definition toLowerCase :: "string \<Rightarrow> string" where
  "toLowerCase s =
     map (\<lambda>c. case map_of (zip ''ABCDEFGHIJKLMNOPQRSTUVWXYZ'' ''abcdefghijklmnopqrstuvwxyz'') c of
                 Some l \<Rightarrow> l | None \<Rightarrow> c) s"

definition toUpperCase :: "string \<Rightarrow> string" where
  "toUpperCase s =
     map (\<lambda>c. case map_of (zip ''abcdefghijklmnopqrstuvwxyz'' ''ABCDEFGHIJKLMNOPQRSTUVWXYZ'') c of
                 Some l \<Rightarrow> l | None \<Rightarrow> c) s"

fun startsWith :: "string \<Rightarrow> string \<Rightarrow> bool" where
  "startsWith s [] = True"
| "startsWith [] (p # ps) = False"
| "startsWith (c # cs) (p # ps) = (c = p \<and> startsWith cs ps)"

text \<open>\<^verbatim>\<open>s.includes(pat)\<close>\<close>

fun includes' :: "string \<Rightarrow> string \<Rightarrow> bool" where
  "includes' [] pat = (pat = [])"
| "includes' (c # cs) pat = (startsWith (c # cs) pat \<or> includes' cs pat)"

text \<open>\<^verbatim>\<open>String(n)\<close> for a natural number, and \<^verbatim>\<open>padStart(k, "0")\<close>.\<close>

fun String_of_nat :: "nat \<Rightarrow> string" where
  "String_of_nat n =
     (if n < 10 then [''0123456789'' ! n]
      else String_of_nat (n div 10) @ [''0123456789'' ! (n mod 10)])"

declare String_of_nat.simps [simp del]

text \<open>
  The number that a string of decimal digits denotes: a left inverse of \<open>String_of_nat\<close>,
  used to show that the ids given to members are pairwise different.
\<close>

definition digit_of :: "char \<Rightarrow> nat" where
  "digit_of c = of_char c - of_char (CHR ''0'')"

definition digits_value :: "string \<Rightarrow> nat" where
  "digits_value s = foldl (\<lambda>a c. 10 * a + digit_of c) 0 s"

definition padStart :: "string \<Rightarrow> nat \<Rightarrow> char \<Rightarrow> string" where
  "padStart s k c = replicate (k - length s) c @ s"

definition is_space :: "char \<Rightarrow> bool" where
  "is_space c = (c \<in> set [CHR '' '', CHR 0x09, CHR 0x0A, CHR 0x0B, CHR 0x0C, CHR 0x0D])"

definition trim :: "string \<Rightarrow> string" where
  "trim s = rev (dropWhile is_space (rev (dropWhile is_space s)))"

text \<open>\<^verbatim>\<open>s.replace(/pat/g, "")\<close> for a literal, non-empty pattern.\<close>

fun remove_all :: "string \<Rightarrow> string \<Rightarrow> string" where
  "remove_all pat [] = []"
| "remove_all pat (c # cs) =
     (if pat \<noteq> [] \<and> startsWith (c # cs) pat
      then remove_all pat (drop (length pat) (c # cs))
      else c # remove_all pat cs)"

section \<open>Seeded random source (\<^verbatim>\<open>rng.ts\<close>)\<close>

text \<open>
  The state of a \<^verbatim>\<open>Random\<close> object is its field \<^verbatim>\<open>seed\<close>, a whole number.  Every
  method takes the state and returns it updated.  The product and the sum in \<^verbatim>\<open>next\<close>
  are rounded to double precision (to the nearest number of 53 significant bits, ties to
  the even one); they are exact as long as the state lies between \<open>-2^32\<close> and \<open>2^32\<close>,
  which holds after the first call, but not for a first state taken from the clock.  The
  remainder and the division by \<open>2^32\<close> are exact.
\<close>

function bit_length :: "int \<Rightarrow> nat" where
  "bit_length n = (if n \<le> 0 then 0 else Suc (bit_length (n div 2)))"
  by pat_completeness auto

termination bit_length
  by (relation "measure nat") auto

declare bit_length.simps [simp del]

definition to_double :: "int \<Rightarrow> int" where
  \<comment> \<open>the double nearest to a whole number\<close>
  "to_double n =
     (let a = \<bar>n\<bar>; k = bit_length a - 53; q = a div 2 ^ k; r = a mod 2 ^ k
      in if k = 0 then n
         else sgn n * ((if 2 ^ k < 2 * r \<or> (2 * r = 2 ^ k \<and> odd q) then q + 1 else q) * 2 ^ k))"

definition Random_new :: "int option \<Rightarrow> int \<Rightarrow> int" where
  \<comment> \<open>\<^verbatim>\<open>seed ?? Date.now()\<close>; the second argument is the clock.\<close>
  "Random_new seed now = (case seed of None \<Rightarrow> now | Some s \<Rightarrow> s)"

definition Random_next :: "int \<Rightarrow> real \<times> int" where
  "Random_next seed =
     (let seed' = js_rem (to_double (to_double (seed * 1664525) + 1013904223)) 4294967296
      in (real_of_int seed' / 4294967296, seed'))"

definition Random_uniform :: "real \<Rightarrow> real \<Rightarrow> int \<Rightarrow> real \<times> int" where
  "Random_uniform lo hi seed =
     (case Random_next seed of (u, seed') \<Rightarrow> (lo + (hi - lo) * u, seed'))"

text \<open>\<^verbatim>\<open>while (u === 0) u = this.next();\<close>\<close>

function draw_nonzero :: "real \<Rightarrow> int \<Rightarrow> real \<times> int" where
  "draw_nonzero u seed =
     (if u = 0 then (case Random_next seed of (u', seed') \<Rightarrow> draw_nonzero u' seed')
      else (u, seed))"
  by pat_completeness auto

lemma bit_length_le: "n < 2 ^ k \<Longrightarrow> bit_length n \<le> k"
proof (induction n arbitrary: k rule: bit_length.induct)
  case (1 n)
  show ?case
  proof (cases "n \<le> 0")
    case True
    then show ?thesis by (simp add: bit_length.simps)
  next
    case False
    then have "k \<noteq> 0" using "1.prems" by (cases k) auto
    then obtain j where j: "k = Suc j" by (cases k) auto
    then have "n div 2 < 2 ^ j" using "1.prems" by auto
    from "1.IH" [OF False this] have "bit_length (n div 2) \<le> j" .
    then show ?thesis using False j by (subst bit_length.simps) simp
  qed
qed

lemma to_double_small: "\<bar>n\<bar> < 2 ^ 53 \<Longrightarrow> to_double n = n"
proof -
  assume "\<bar>n\<bar> < 2 ^ 53"
  then have "bit_length \<bar>n\<bar> \<le> 53" by (rule bit_length_le)
  then show ?thesis by (simp add: to_double_def Let_def)
qed

lemma Random_next_zero: "fst (Random_next seed) = 0 \<Longrightarrow> snd (Random_next seed) = 0"
  by (simp add: Random_next_def Let_def)

lemma Random_next_of_zero: "fst (Random_next 0) \<noteq> 0"
  by (simp add: Random_next_def Let_def js_rem_def to_double_small)

termination draw_nonzero
  apply (relation "measure (\<lambda>(u, seed). if u \<noteq> 0 then 0
                          else if fst (Random_next seed) = 0 then 2 else (1::nat))")
   apply simp
  subgoal for u seed u' seed'
  proof -
    assume u: "u = 0" and "(u', seed') = Random_next seed"
    then have r: "Random_next seed = (u', seed')" by simp
    show ?thesis
    proof (cases "u' = 0")
      case True
      then have "seed' = 0" using Random_next_zero [of seed] r by simp
      then show ?thesis using True u r Random_next_of_zero by simp
    next
      case False
      then show ?thesis using u r by simp
    qed
  qed
  done

declare draw_nonzero.simps [simp del]

definition Random_gauss :: "real \<Rightarrow> real \<Rightarrow> int \<Rightarrow> real \<times> int" where
  \<comment> \<open>Box-Muller; \<^verbatim>\<open>Math.sqrt\<close>, \<^verbatim>\<open>Math.log\<close> and \<^verbatim>\<open>Math.cos\<close> are the real functions.\<close>
  "Random_gauss mu sigma seed =
     (case draw_nonzero 0 seed of (u, s1) \<Rightarrow>
      case draw_nonzero 0 s1 of (v, s2) \<Rightarrow>
        (sqrt (- 2 * ln u) * cos (2 * pi * v) * sigma + mu, s2))"

text \<open>
  The scan of \<^verbatim>\<open>choice\<close>: \<^verbatim>\<open>sum += weights[i]; if (r < sum) return items[i]\<close>.  The
  running sum is \<open>None\<close> once it is \<^verbatim>\<open>NaN\<close>, which happens when \<^verbatim>\<open>weights\<close> is shorter than
  \<^verbatim>\<open>items\<close>; a comparison with \<^verbatim>\<open>NaN\<close> is false.
\<close>

fun choice_scan :: "'a list \<Rightarrow> real list \<Rightarrow> real \<Rightarrow> real option \<Rightarrow> 'a option" where
  "choice_scan [] ws r acc = None"
| "choice_scan (x # xs) ws r acc =
     (let acc' = (case (acc, ws) of (Some a, w # _) \<Rightarrow> Some (a + w) | _ \<Rightarrow> None)
      in if (case acc' of Some a \<Rightarrow> r < a | None \<Rightarrow> False) then Some x
         else choice_scan xs (tl ws) r acc')"

definition Random_choice ::
  "'a list \<Rightarrow> real list option \<Rightarrow> int \<Rightarrow> js_error + ('a option \<times> int)" where
  "Random_choice items weights' seed =
     (if items = [] then Inl (Error ''Empty items'')
      else case weights' of
        None \<Rightarrow> (case Random_next seed of (u, seed') \<Rightarrow>
                  Inr (js_index items \<lfloor>u * real (length items)\<rfloor>, seed'))
      | Some ws \<Rightarrow>
          (let total = foldl (+) 0 ws in
           case Random_next seed of (u, seed') \<Rightarrow>
             (let r = u * total in
              case choice_scan items ws r (Some 0) of
                Some x \<Rightarrow> Inr (Some x, seed')
              | None \<Rightarrow> Inr (Some (last items), seed'))))"

section \<open>The browser orchestrator (\<^verbatim>\<open>lib/simulation.ts\<close>)\<close>

text \<open>
  The repository holds two revisions of this file.  They differ in how a speech is made and
  in \<^verbatim>\<open>batchVote\<close>; sampling, speaker selection, tally, reconciliation, amendment and the
  round loop are the same text.  \<open>Batch\<close> is the revision that asks the engine for the votes
  of ten members at a time, \<open>Single\<close> the one that asks once per member.
\<close>

datatype revision = Batch | Single

subsection \<open>Sampling\<close>

definition member_label :: "nat \<Rightarrow> string" where
  \<comment> \<open>\<^verbatim>\<open>`M-${String(i + 1).padStart(4, "0")}`\<close>\<close>
  "member_label i = ''M-'' @ padStart (String_of_nat (i + 1)) 4 (CHR ''0'')"

definition new_member :: "nat \<Rightarrow> District \<Rightarrow> real \<Rightarrow> Member" where
  \<comment> \<open>the member pushed in pass \<open>i\<close>, from district \<open>d\<close> and the draw \<open>x\<close> of \<^verbatim>\<open>Math.random\<close>\<close>
  "new_member i d x =
     (let noise = (x - 0.5) * 0.4;
          ideology' = max (- 1) (min 1 (lean d + noise));
          party_hint' = (if ideology' > 0.1 then ''Blue''
                         else if ideology' < - 0.1 then ''Red'' else ''Purple'')
      in \<lparr>member_id = member_label i, district = d,
          ideology = ideology', party_hint = party_hint'\<rparr>)"

fun sampleMembers_loop ::
  "env \<Rightarrow> District list \<Rightarrow> nat list \<Rightarrow> Member list \<Rightarrow> world
     \<Rightarrow> js_error + (Member list \<times> world)" where
  "sampleMembers_loop e districts [] ms w = Inr (ms, w)"
| "sampleMembers_loop e districts (i # is) ms w =
     (case js_index districts (int i mod int (length districts)) of
        None \<Rightarrow> Inl (TypeError ''d is undefined'')
      | Some d \<Rightarrow>
          (case Math_random e w of (x, w') \<Rightarrow>
             sampleMembers_loop e districts is (ms @ [new_member i d x]) w'))"

definition sampleMembers ::
  "env \<Rightarrow> District list \<Rightarrow> int \<Rightarrow> int option \<Rightarrow> world \<Rightarrow> js_error + (Member list \<times> world)" where
  \<comment> \<open>\<^verbatim>\<open>for (let i = 0; i < n; i++)\<close>; the argument \<^verbatim>\<open>rngSeed\<close> is never read.\<close>
  "sampleMembers e districts n rngSeed w = sampleMembers_loop e districts [0..<nat n] [] w"

subsection \<open>Speeches\<close>

definition or_default :: "string option \<Rightarrow> string \<Rightarrow> string" where
  \<comment> \<open>\<^verbatim>\<open>content || dflt\<close>: \<^verbatim>\<open>null\<close> and the empty string are falsy.\<close>
  "or_default c dflt = (case c of None \<Rightarrow> dflt | Some x \<Rightarrow> if x = [] then dflt else x)"

definition pick_speakers :: "Member list \<Rightarrow> Member option list" where
  "pick_speakers ms =
     (let sorted = sort_key ideology ms; len = int (length sorted)
      in [js_index sorted 0,
          js_index sorted \<lfloor>real_of_int len * 0.25\<rfloor>,
          js_index sorted \<lfloor>real_of_int len * 0.5\<rfloor>,
          js_index sorted \<lfloor>real_of_int len * 0.75\<rfloor>,
          js_index sorted (len - 1)])"

definition stance_of_thought :: "string \<Rightarrow> Stance" where
  "stance_of_thought t =
     (if includes' t ''yes'' then support else if includes' t ''no'' then oppose else amend)"

text \<open>
  The clean-up of a generated speech in revision \<open>Single\<close>:
  \<^verbatim>\<open>raw.replace(/Here is the dialogue:|I cannot fulfill|M-\d+/gi, "")\<close>, removal of double
  quotes, \<^verbatim>\<open>trim\<close>, the first sentence, the prefix, and \<^verbatim>\<open>slice(0, 300)\<close>.
\<close>

definition is_digit :: "char \<Rightarrow> bool" where
  "is_digit c = (c \<in> set ''0123456789'')"

definition boilerplate_at :: "string \<Rightarrow> nat option" where
  \<comment> \<open>the length of a match of the expression at the start of the string\<close>
  "boilerplate_at s =
     (if startsWith (toLowerCase s) ''here is the dialogue:'' then Some (length ''here is the dialogue:'')
      else if startsWith (toLowerCase s) ''i cannot fulfill'' then Some (length ''i cannot fulfill'')
      else case s of
             m # d # s1 \<Rightarrow>
               if (m = CHR ''M'' \<or> m = CHR ''m'') \<and> d = CHR ''-'' \<and> takeWhile is_digit s1 \<noteq> []
               then Some (2 + length (takeWhile is_digit s1)) else None
           | _ \<Rightarrow> None)"

lemma boilerplate_at_pos: "boilerplate_at s = Some k \<Longrightarrow> 0 < k"
  by (auto simp: boilerplate_at_def split: if_splits list.splits)

function strip_boilerplate :: "string \<Rightarrow> string" where
  "strip_boilerplate [] = []"
| "strip_boilerplate (c # cs) =
     (case boilerplate_at (c # cs) of
        None \<Rightarrow> c # strip_boilerplate cs
      | Some k \<Rightarrow> strip_boilerplate (drop k (c # cs)))"
  by pat_completeness auto

termination strip_boilerplate
  by (relation "measure length") (auto dest: boilerplate_at_pos)

definition tidy_speech :: "string option \<Rightarrow> Stance \<Rightarrow> string" where
  "tidy_speech c st =
     (let raw1 = strip_boilerplate (or_default c []);
          raw2 = trim (filter (\<lambda>ch. ch \<noteq> CHR 0x22) raw1);
          raw3 = (if CHR ''.'' \<in> set raw2 then takeWhile (\<lambda>ch. ch \<noteq> CHR ''.'') raw2 @ ''.''
                  else raw2);
          raw4 = (if \<not> startsWith (toLowerCase raw3) ''mr. speaker'' then
                    (if st = support then ''Mr. Speaker, I support this because''
                     else ''Mr. Speaker, I oppose this because'')
                    @ '' '' @ toLowerCase (take 1 raw3) @ drop 1 raw3
                  else raw3)
      in take 300 raw4)"

text \<open>The body of \<^verbatim>\<open>for (const s of speakers)\<close> for a speaker that is defined.\<close>

definition speech_for ::
  "revision \<Rightarrow> env \<Rightarrow> bool \<Rightarrow> Member \<Rightarrow> world \<Rightarrow> js_error + (Speech \<times> world)" where
  "speech_for rv e llm m w =
     (if llm then
        (case chat_create e w of
           (Throws, w1) \<Rightarrow> Inl EngineError
         | (Content c, w1) \<Rightarrow>
             (let t = (case c of None \<Rightarrow> [] | Some x \<Rightarrow> toLowerCase x);
                  stance' = stance_of_thought t
              in case chat_create e w1 of
                   (Throws, w2) \<Rightarrow> Inl EngineError
                 | (Content c2, w2) \<Rightarrow>
                     Inr (\<lparr>member_id = member_id m, stance = stance',
                           text' = (case rv of
                                      Batch \<Rightarrow> or_default c2 ''I yield my time.''
                                    | Single \<Rightarrow> tidy_speech c2 stance'),
                           rationale = []\<rparr>, w2)))
      else
        (case rv of
           Batch \<Rightarrow>
             Inr (\<lparr>member_id = member_id m,
                   stance = (if ideology m > 0 then support else oppose),
                   text' = ''I have no brain (LLM disabled).'',
                   rationale = []\<rparr>, w)
         | Single \<Rightarrow>
             (case Math_random e w of (x, w1) \<Rightarrow>
                (let prob = (ideology m + 1) / 2
                 in Inr (\<lparr>member_id = member_id m,
                          stance = (if x < prob then support else oppose),
                          text' = ''I have no brain (LLM disabled).'',
                          rationale = []\<rparr>, w1)))))"

fun speeches_loop ::
  "revision \<Rightarrow> env \<Rightarrow> bool \<Rightarrow> Member option list \<Rightarrow> Speech list \<Rightarrow> world
     \<Rightarrow> js_error + (Speech list \<times> world)" where
  "speeches_loop rv e llm [] sps w = Inr (sps, w)"
| "speeches_loop rv e llm (s # ss) sps w =
     (case s of
        None \<Rightarrow> Inl (TypeError ''s is undefined'')
      | Some m \<Rightarrow>
          (case speech_for rv e llm m w of
             Inl err \<Rightarrow> Inl err
           | Inr (spObj, w') \<Rightarrow> speeches_loop rv e llm ss (sps @ [spObj]) w'))"

subsection \<open>Voting, revision \<open>Batch\<close>\<close>

text \<open>
  One match of \<^verbatim>\<open>/(M-\d+)\s*[:|-]?\s*(YES|NO)/gi\<close> at the start of a string: the
  member id in upper case, whether the vote word is \<^verbatim>\<open>YES\<close>, and the text after the match.
  Every quantifier of the expression is followed by a character class disjoint from its
  own, so the greedy reading below is the only way to match.
\<close>

definition skip_separator :: "string \<Rightarrow> string" where
  \<comment> \<open>\<^verbatim>\<open>[:|-]?\<close>\<close>
  "skip_separator s = (case s of [] \<Rightarrow> [] | c # s' \<Rightarrow> if c \<in> set '':|-'' then s' else s)"

definition after_id :: "string \<Rightarrow> string" where
  \<comment> \<open>what follows \<^verbatim>\<open>\d+\s*[:|-]?\s*\<close>\<close>
  "after_id s = dropWhile is_space (skip_separator (dropWhile is_space (dropWhile is_digit s)))"

definition vote_match_at :: "string \<Rightarrow> (string \<times> bool \<times> string) option" where
  "vote_match_at s =
     (case s of
        m # d # s1 \<Rightarrow>
          if (m = CHR ''M'' \<or> m = CHR ''m'') \<and> d = CHR ''-'' \<and> takeWhile is_digit s1 \<noteq> [] then
            (let digits = takeWhile is_digit s1; s4 = after_id s1
             in if toUpperCase (take 3 s4) = ''YES'' then Some (''M-'' @ digits, True, drop 3 s4)
                else if toUpperCase (take 2 s4) = ''NO'' then Some (''M-'' @ digits, False, drop 2 s4)
                else None)
          else None
      | _ \<Rightarrow> None)"

lemma skip_separator_le: "length (skip_separator s) \<le> length s"
  by (cases s) (simp_all add: skip_separator_def)

lemma after_id_le: "length (after_id s) \<le> length s"
proof -
  have "length (after_id s) \<le> length (skip_separator (dropWhile is_space (dropWhile is_digit s)))"
    unfolding after_id_def by (rule length_dropWhile_le)
  also have "\<dots> \<le> length (dropWhile is_space (dropWhile is_digit s))"
    by (rule skip_separator_le)
  also have "\<dots> \<le> length (dropWhile is_digit s)"
    by (rule length_dropWhile_le)
  also have "\<dots> \<le> length s"
    by (rule length_dropWhile_le)
  finally show ?thesis .
qed

lemma vote_match_at_shorter:
  assumes "vote_match_at s = Some (i, v, rest)"
  shows "length rest < length s"
proof -
  obtain m d s1 where s: "s = m # d # s1"
    using assms by (auto simp: vote_match_at_def split: list.splits)
  have "rest = drop 3 (after_id s1) \<or> rest = drop 2 (after_id s1)"
    using assms unfolding s vote_match_at_def Let_def
    by (simp split: if_splits)
  then have "length rest \<le> length (after_id s1)" by auto
  then show ?thesis using after_id_le [of s1] s by simp
qed

text \<open>
  The \<^verbatim>\<open>while ((match = regex.exec(txt)) !== null)\<close> loop: all matches from left to
  right, each search resuming where the previous match ended.
\<close>

function scan_votes :: "string \<Rightarrow> (string \<times> bool) list" where
  "scan_votes [] = []"
| "scan_votes (c # cs) =
     (case vote_match_at (c # cs) of
        None \<Rightarrow> scan_votes cs
      | Some (i, v, rest) \<Rightarrow> (i, v) # scan_votes rest)"
  by pat_completeness auto

termination scan_votes
  by (relation "measure length") (auto dest: vote_match_at_shorter)

type_synonym roll = "(string \<times> ballot) list"

text \<open>
  A \<^verbatim>\<open>Record<string, ...>\<close> is an association list in insertion order, which is the order
  of \<^verbatim>\<open>Object.entries\<close>; assigning to a key that is present keeps its place.
\<close>

fun fallback_loop :: "env \<Rightarrow> Member list \<Rightarrow> roll \<Rightarrow> world \<Rightarrow> roll \<times> world" where
  "fallback_loop e [] results w = (results, w)"
| "fallback_loop e (m # ms) results w =
     (case map_of results (member_id m) of
        Some b \<Rightarrow> fallback_loop e ms results w
      | None \<Rightarrow>
          (case Math_random e w of (x, w') \<Rightarrow>
             (let prob = (ideology m + 1) / 2
              in fallback_loop e ms
                   (AList.update (member_id m) (if x < prob then Yes else No) results) w')))"

definition record_matches :: "(string \<times> bool) list \<Rightarrow> roll \<Rightarrow> roll" where
  "record_matches matches results =
     foldl (\<lambda>res (i, v). AList.update i (if v then Yes else No) res) results matches"

definition abstain_chunk :: "Member list \<Rightarrow> roll \<Rightarrow> roll" where
  \<comment> \<open>the \<^verbatim>\<open>catch\<close> block\<close>
  "abstain_chunk chunk results =
     foldl (\<lambda>res m. AList.update (member_id m) Abstain res) results chunk"

function batchVote_loop :: "env \<Rightarrow> Member list \<Rightarrow> nat \<Rightarrow> roll \<Rightarrow> world \<Rightarrow> roll \<times> world" where
  "batchVote_loop e ms i results w =
     (if i < length ms then
        (let chunk = take 10 (drop i ms)
         in case chat_create e w of
              (Throws, w1) \<Rightarrow> batchVote_loop e ms (i + 10) (abstain_chunk chunk results) w1
            | (Content c, w1) \<Rightarrow>
                (case fallback_loop e chunk (record_matches (scan_votes (or_default c [])) results) w1 of
                   (results', w2) \<Rightarrow> batchVote_loop e ms (i + 10) results' w2))
      else (results, w))"
  by pat_completeness auto

termination batchVote_loop
  by (relation "measure (\<lambda>(e, ms, i, results, w). length ms - i)") auto

declare batchVote_loop.simps [simp del]

definition batchVote_batch :: "env \<Rightarrow> Bill \<Rightarrow> Member list \<Rightarrow> world \<Rightarrow> roll \<times> world" where
  "batchVote_batch e bill' ms w = batchVote_loop e ms 0 [] w"

subsection \<open>Voting, revision \<open>Single\<close>\<close>

definition vote_of_reply :: "string \<Rightarrow> ballot" where
  "vote_of_reply txt =
     (if includes' txt ''yes'' \<or> includes' txt ''aye'' \<or> includes' txt ''support'' then Yes
      else if includes' txt ''no'' \<or> includes' txt ''nay'' \<or> includes' txt ''oppose'' then No
      else Abstain)"

text \<open>
  \<^verbatim>\<open>Promise.all(chunk.map(async (m, idx) => ...))\<close>: one completion per member, consumed
  in the order of the chunk; a call that throws is caught and counts as an abstention.
\<close>

fun chunk_votes :: "env \<Rightarrow> Member list \<Rightarrow> world \<Rightarrow> roll \<times> world" where
  "chunk_votes e [] w = ([], w)"
| "chunk_votes e (m # ms) w =
     (case chat_create e w of
        (Throws, w1) \<Rightarrow>
          (case chunk_votes e ms w1 of (rs, w2) \<Rightarrow> ((member_id m, Abstain) # rs, w2))
      | (Content c, w1) \<Rightarrow>
          (let txt = (case c of None \<Rightarrow> [] | Some x \<Rightarrow> toLowerCase x)
           in case chunk_votes e ms w1 of
                (rs, w2) \<Rightarrow> ((member_id m, vote_of_reply txt) # rs, w2)))"

definition record_results :: "roll \<Rightarrow> roll \<Rightarrow> roll" where
  \<comment> \<open>\<^verbatim>\<open>for (const res of chunkResults) results[res.id] = res.vote\<close>\<close>
  "record_results chunkResults results =
     foldl (\<lambda>res (i, v). AList.update i v res) results chunkResults"

text \<open>
  The step \<^verbatim>\<open>PARALLEL_LIMIT\<close> is \<^verbatim>\<open>opts.parallelLimit || 5\<close> at the only call, hence
  positive.  With step \<open>0\<close> the source would loop forever; the model stops instead, and
  no theorem below uses that case.
\<close>

function batchVote_single_loop ::
  "env \<Rightarrow> Member list \<Rightarrow> nat \<Rightarrow> nat \<Rightarrow> roll \<Rightarrow> world \<Rightarrow> roll \<times> world" where
  "batchVote_single_loop e ms plimit i results w =
     (if i < length ms \<and> 0 < plimit then
        (case chunk_votes e (take plimit (drop i ms)) w of
           (chunkResults, w1) \<Rightarrow>
             batchVote_single_loop e ms plimit (i + plimit) (record_results chunkResults results) w1)
      else (results, w))"
  by pat_completeness auto

termination batchVote_single_loop
  by (relation "measure (\<lambda>(e, ms, plimit, i, results, w). length ms - i)") auto

declare batchVote_single_loop.simps [simp del]

definition batchVote_single ::
  "env \<Rightarrow> Bill \<Rightarrow> Member list \<Rightarrow> nat \<Rightarrow> world \<Rightarrow> roll \<times> world" where
  "batchVote_single e bill' ms plimit w = batchVote_single_loop e ms plimit 0 [] w"

definition batchVote ::
  "revision \<Rightarrow> env \<Rightarrow> Bill \<Rightarrow> Member list \<Rightarrow> nat option \<Rightarrow> world \<Rightarrow> roll \<times> world" where
  "batchVote rv e bill' ms plimit w =
     (case rv of
        Batch \<Rightarrow> batchVote_batch e bill' ms w
      | Single \<Rightarrow>
          batchVote_single e bill' ms
            (case plimit of None \<Rightarrow> 5 | Some k \<Rightarrow> if k = 0 then 5 else k) w)"

subsection \<open>Tally and reconciliation\<close>

type_synonym counts = "int \<times> int \<times> int"

fun tally_add :: "int \<Rightarrow> ballot option \<Rightarrow> counts \<Rightarrow> counts" where
  \<comment> \<open>\<^verbatim>\<open>if (v === "yes") yes += k; else if (v === "no") no += k; else abs += k;\<close>\<close>
  "tally_add k v (y, n, a) =
     (if v = Some Yes then (y + k, n, a)
      else if v = Some No then (y, n + k, a)
      else (y, n, a + k))"

definition count_votes :: "roll \<Rightarrow> counts" where
  "count_votes votes = foldl (\<lambda>c (mid, v). tally_add 1 (Some v) c) (0, 0, 0) votes"

definition forced_vote :: "Stance \<Rightarrow> ballot" where
  "forced_vote s = (if s = support then Yes else if s = oppose then No else Abstain)"

fun reconcile :: "Speech list \<Rightarrow> counts \<times> roll \<Rightarrow> counts \<times> roll" where
  "reconcile [] cv = cv"
| "reconcile (s # ss) (c, votes) =
     (let currentVote = map_of votes (member_id s);
          forcedVote = forced_vote (stance s)
      in if currentVote \<noteq> Some forcedVote then
           reconcile ss (tally_add 1 (Some forcedVote) (tally_add (- 1) currentVote c),
                         AList.update (member_id s) forcedVote votes)
         else reconcile ss (c, votes))"

definition tally_votes :: "roll \<Rightarrow> Speech list \<Rightarrow> Vote" where
  "tally_votes votes sps =
     (case reconcile sps (count_votes votes, votes) of
        ((y, n, a), votes') \<Rightarrow>
          \<lparr>yes = y, no = n, abstain = a,
           passed = (real_of_int y > real_of_int (y + n) * 0.5),
           threshold = 0.5, rollCall = votes'\<rparr>)"

definition placeholder_vote :: "int \<Rightarrow> Vote" where
  \<comment> \<open>the tally when the engine is not in use\<close>
  "placeholder_vote n =
     \<lparr>yes = n div 2, no = n div 2, abstain = 0, passed = False, threshold = 0.5, rollCall = []\<rparr>"

subsection \<open>Amendment\<close>

definition generateAmendment ::
  "env \<Rightarrow> Bill \<Rightarrow> Speech list \<Rightarrow> bool \<Rightarrow> world \<Rightarrow> js_error + (string \<times> world)" where
  "generateAmendment e bill' sps voteFailed w =
     (case chat_create e w of
        (Throws, w1) \<Rightarrow> Inl EngineError
      | (Content c, w1) \<Rightarrow>
          Inr (or_default c ''Add a budgetary oversight committee to monitor spending.'', w1))"

definition amendment_suffix :: "int \<Rightarrow> string \<Rightarrow> string" where
  \<comment> \<open>\<^verbatim>\<open>`\n\nAMENDMENT (Round ${r + 1}): ${amendText}`\<close>\<close>
  "amendment_suffix r amendText =
     [CHR 0x0A, CHR 0x0A] @ ''AMENDMENT (Round '' @ String_of_nat (nat (r + 1)) @ ''): '' @ amendText"

subsection \<open>The round loop\<close>

record run_state =
  currentBill :: Bill
  allRounds :: "Round list"
  run_notes :: "string list"
  run_world :: world

text \<open>
  One pass through the body of \<^verbatim>\<open>for (let r = 0; r < rounds; r++)\<close>, in three steps:
  the speeches, the vote, and what follows the vote.  The flag returned tells whether the
  body left through \<^verbatim>\<open>break\<close>.  The amendment is assigned to the round object after it
  was pushed, so it shows in the list.
\<close>

definition vote_phase ::
  "revision \<Rightarrow> env \<Rightarrow> bool \<Rightarrow> nat option \<Rightarrow> Bill \<Rightarrow> Member list \<Rightarrow> int \<Rightarrow> Speech list \<Rightarrow> world
     \<Rightarrow> Vote \<times> world" where
  "vote_phase rv e llm plimit b ms n sps w =
     (if llm then (case batchVote rv e b ms plimit w of
                     (votes, w2) \<Rightarrow> (tally_votes votes sps, w2))
      else (placeholder_vote n, w))"

definition conclude_round ::
  "env \<Rightarrow> bool \<Rightarrow> int \<Rightarrow> int \<Rightarrow> run_state \<Rightarrow> Speech list \<Rightarrow> Vote \<Rightarrow> world
     \<Rightarrow> js_error + (run_state \<times> bool)" where
  "conclude_round e llm R r st sps voteRes w2 =
     (let roundObj = \<lparr>round_index = r, speeches = sps, vote = voteRes, amendment = None\<rparr>;
          st1 = st\<lparr>allRounds := allRounds st @ [roundObj], run_world := w2\<rparr>
      in if passed voteRes then
           Inr (st1\<lparr>run_notes := run_notes st @
                        [''Passed in round '' @ String_of_nat (nat (r + 1)) @ ''.'']\<rparr>, True)
         else if r < R - 1 then
           (if llm then
              (case generateAmendment e (currentBill st) sps True w2 of
                 Inl err \<Rightarrow> Inl err
               | Inr (amendText, w3) \<Rightarrow>
                   Inr (st\<lparr>currentBill := (currentBill st)
                               \<lparr>summary := summary (currentBill st) @ amendment_suffix r amendText\<rparr>,
                            allRounds := allRounds st @ [roundObj\<lparr>amendment := Some amendText\<rparr>],
                            run_notes := run_notes st @ [''Amendment Proposed: '' @ amendText],
                            run_world := w3\<rparr>, False))
            else Inr (st1, False))
         else Inr (st1, False))"

definition client_round ::
  "revision \<Rightarrow> env \<Rightarrow> bool \<Rightarrow> nat option \<Rightarrow> Member list \<Rightarrow> int \<Rightarrow> int \<Rightarrow> int \<Rightarrow> run_state
     \<Rightarrow> js_error + (run_state \<times> bool)" where
  "client_round rv e llm plimit ms n R r st =
     (case speeches_loop rv e llm (pick_speakers ms) [] (run_world st) of
        Inl err \<Rightarrow> Inl err
      | Inr (sps, w1) \<Rightarrow>
          (case vote_phase rv e llm plimit (currentBill st) ms n sps w1 of
             (voteRes, w2) \<Rightarrow> conclude_round e llm R r st sps voteRes w2))"

function client_loop ::
  "revision \<Rightarrow> env \<Rightarrow> bool \<Rightarrow> nat option \<Rightarrow> Member list \<Rightarrow> int \<Rightarrow> int \<Rightarrow> int \<Rightarrow> run_state
     \<Rightarrow> js_error + run_state" where
  "client_loop rv e llm plimit ms n R r st =
     (if r < R then
        (case client_round rv e llm plimit ms n R r st of
           Inl err \<Rightarrow> Inl err
         | Inr (st', stop) \<Rightarrow>
             if stop then Inr st' else client_loop rv e llm plimit ms n R (r + 1) st')
      else Inr st)"
  by pat_completeness auto

termination client_loop
  by (relation "measure (\<lambda>(rv, e, llm, plimit, ms, n, R, r, st). nat (R - r))") auto

declare client_loop.simps [simp del]

subsection \<open>\<^verbatim>\<open>runSimulationClient\<close>\<close>

text \<open>
  The module keeps the loaded engine and its model name in two global variables.
  \<^verbatim>\<open>engine.reload\<close> may throw.
\<close>

record globals =
  loadedEngine :: bool
  currentModelId :: "string option"

definition init_engine :: "env \<Rightarrow> globals \<Rightarrow> SimOptions \<Rightarrow> js_error + globals" where
  "init_engine e g opts =
     (case llmConfig opts of
        None \<Rightarrow> Inr g
      | Some model \<Rightarrow>
          if useLlm opts \<and> (\<not> loadedEngine g \<or> currentModelId g \<noteq> Some model) then
            (if reload_fails e then Inl EngineError
             else Inr \<lparr>loadedEngine = True, currentModelId = Some model\<rparr>)
          else Inr g)"

definition filledDistricts :: "District list \<Rightarrow> int \<Rightarrow> District list" where
  \<comment> \<open>\<^verbatim>\<open>filledDistricts.push(sample[i % sample.length])\<close> for \<^verbatim>\<open>i < numMembers\<close>; the
      sample is not empty here\<close>
  "filledDistricts smp n = map (\<lambda>i. smp ! (i mod length smp)) [0..<nat n]"

definition final_passed_of :: "Round list \<Rightarrow> bool" where
  \<comment> \<open>\<^verbatim>\<open>allRounds[allRounds.length - 1]?.vote.passed || false\<close>\<close>
  "final_passed_of rs = (case rs of [] \<Rightarrow> False | _ \<Rightarrow> passed (vote (last rs)))"

definition runSimulationClient ::
  "revision \<Rightarrow> env \<Rightarrow> globals \<Rightarrow> SimOptions \<Rightarrow> world \<Rightarrow> js_error + SimResult" where
  "runSimulationClient rv e g opts w =
     (case init_engine e g opts of
        Inl err \<Rightarrow> Inl err
      | Inr g' \<Rightarrow>
          if sample (districtSummary opts) = [] then Inl (Error ''No districts'')
          else
            (case sampleMembers e (filledDistricts (sample (districtSummary opts)) (numMembers opts))
                    (numMembers opts)
                    (case seed_opt opts of None \<Rightarrow> None | Some s \<Rightarrow> if s = 0 then None else Some s) w of
               Inl err \<Rightarrow> Inl err
             | Inr (ms, w1) \<Rightarrow>
                 (case client_loop rv e (useLlm opts \<and> loadedEngine g') (parallelLimit opts) ms
                         (numMembers opts) (rounds_opt opts) 0
                         \<lparr>currentBill = bill opts, allRounds = [], run_notes = [], run_world = w1\<rparr> of
                    Inl err \<Rightarrow> Inl err
                  | Inr st \<Rightarrow>
                      Inr \<lparr>members = ms, rounds = allRounds st,
                           final_passed = final_passed_of (allRounds st),
                           notes' = run_notes st\<rparr>)))"

section \<open>The seeded engine (\<^verbatim>\<open>simulation/engine.ts\<close>, \<^verbatim>\<open>agents.ts\<close>, \<^verbatim>\<open>debate.ts\<close>)\<close>

subsection \<open>\<^verbatim>\<open>decideVote\<close>\<close>

text \<open>
  A \<^verbatim>\<open>VoteDecision\<close> as it exists at run time: the props \<^verbatim>\<open>vote\<close> and \<^verbatim>\<open>rationale\<close> are
  \<open>vote'\<close> and \<open>rationale'\<close>.  The declared type of \<^verbatim>\<open>vote\<close> is
  \<^verbatim>\<open>"yes" | "no" | "abstain"\<close>, but the value is whatever string the code puts there, and
  \<^verbatim>\<open>rationale\<close> is whatever the parsed object holds under that key, if anything.
\<close>

record VoteDecision =
  vote' :: string
  rationale' :: "json option"

definition abstain_decision :: "string \<Rightarrow> VoteDecision" where
  "abstain_decision msg = \<lparr>vote' = ''abstain'', rationale' = Some (JStr msg)\<rparr>"

definition is_local_model :: "string \<Rightarrow> bool" where
  \<comment> \<open>\<^verbatim>\<open>llmModel.includes("local") || llmModel.startsWith("llama")\<close>\<close>
  "is_local_model llmModel = (includes' llmModel ''local'' \<or> startsWith llmModel ''llama'')"

text \<open>
  The inner \<^verbatim>\<open>try\<close>: strip the code fences, parse, read \<^verbatim>\<open>json.vote.toLowerCase()\<close> and
  \<^verbatim>\<open>json.rationale\<close>.  Anything that throws there (a response that is not a string, text
  that does not parse, a value without a string under \<^verbatim>\<open>vote\<close>) lands in the inner
  \<^verbatim>\<open>catch\<close>.  \<open>JObj\<close> lists the properties of a parsed object, one entry per key.
\<close>

definition parse_decision :: "env \<Rightarrow> string option \<Rightarrow> VoteDecision" where
  "parse_decision e responseText =
     (case responseText of
        None \<Rightarrow> abstain_decision ''Failed to parse reasoning.''
      | Some txt \<Rightarrow>
          (let clean = trim (remove_all ''```'' (remove_all ''```json'' txt))
           in case JSON_parse e clean of
                Some (JObj props) \<Rightarrow>
                  (case map_of props ''vote'' of
                     Some (JStr v) \<Rightarrow> \<lparr>vote' = toLowerCase v, rationale' = map_of props ''rationale''\<rparr>
                   | _ \<Rightarrow> abstain_decision ''Failed to parse reasoning.'')
              | _ \<Rightarrow> abstain_decision ''Failed to parse reasoning.''))"

definition decideVote ::
  "env \<Rightarrow> Member \<Rightarrow> Bill \<Rightarrow> bool \<Rightarrow> string \<Rightarrow> world \<Rightarrow> VoteDecision \<times> world" where
  "decideVote e m b useLlm' llmModel w =
     (if \<not> useLlm' then
        (case Math_random e w of
           (roll, w1) \<Rightarrow>
             (\<lparr>vote' = (if roll > 0.5 then ''yes'' else ''no''),
               rationale' = Some (JStr ''LLM disabled; random heuristic vote.'')\<rparr>, w1))
      else if is_local_model llmModel then
        (case fetch e w of
           (Rejects, w1) \<Rightarrow> (abstain_decision ''Error in decision process.'', w1)
         | (Response ok responseText, w1) \<Rightarrow> (parse_decision e responseText, w1))
      else (abstain_decision ''Error in decision process.'', w))"

subsection \<open>\<^verbatim>\<open>generateSpeech\<close>\<close>

definition templateSpeech :: "Member \<Rightarrow> Stance \<Rightarrow> Bill \<Rightarrow> string" where
  "templateSpeech m st b =
     (let leanWord = (if lean (district m) > 0.15 then ''left-leaning''
                      else if lean (district m) < - 0.15 then ''right-leaning'' else ''mixed'')
      in if st = support then
           ''I support the '' @ title b @ ''. My district is '' @ leanWord
             @ '', and I believe this legislation moves us in the right direction.''
         else if st = oppose then
           ''I oppose the '' @ title b @ ''. My district is '' @ leanWord
             @ '', and this bill does not align with our values or priorities.''
         else
           ''I have concerns about the '' @ title b @ ''. My district is '' @ leanWord
             @ ''; we need to address specific flaws before I can support this.'')"

definition generateSpeech ::
  "env \<Rightarrow> Member \<Rightarrow> Stance \<Rightarrow> Bill \<Rightarrow> bool \<Rightarrow> string \<Rightarrow> world \<Rightarrow> string \<times> world" where
  "generateSpeech e m st b useLlm' llmModel w =
     (if \<not> useLlm' then (templateSpeech m st b, w)
      else if is_local_model llmModel then
        (case fetch e w of
           (Rejects, w1) \<Rightarrow> (templateSpeech m st b, w1)
         | (Response ok response, w1) \<Rightarrow>
             (if ok then (case response of
                            Some t \<Rightarrow> (trim t, w1)
                          | None \<Rightarrow> (templateSpeech m st b, w1))
              else (templateSpeech m st b, w1)))
      else (templateSpeech m st b, w))"

subsection \<open>Sampling with the seeded source\<close>

definition sampled_member :: "nat \<Rightarrow> District \<Rightarrow> real \<Rightarrow> Member" where
  \<comment> \<open>the member pushed in pass \<open>i\<close>, from district \<open>d\<close> and the Gaussian draw \<open>x\<close>\<close>
  "sampled_member i d x =
     (let ideology' = max (- 1) (min 1 x);
          partyHint = (if ideology' > 0.15 then ''Blue''
                       else if ideology' < - 0.15 then ''Red'' else ''Purple'')
      in \<lparr>member_id = member_label i, district = d,
          ideology = ideology', party_hint = partyHint\<rparr>)"

fun sampleMembers_engine_loop ::
  "District list \<Rightarrow> real list \<Rightarrow> nat list \<Rightarrow> Member list \<Rightarrow> int
     \<Rightarrow> js_error + (Member list \<times> int)" where
  "sampleMembers_engine_loop districts probs [] ms rng = Inr (ms, rng)"
| "sampleMembers_engine_loop districts probs (i # is) ms rng =
     (case Random_choice districts (Some probs) rng of
        Inl err \<Rightarrow> Inl err
      | Inr (None, rng1) \<Rightarrow> Inl (TypeError ''d is undefined'')
      | Inr (Some d, rng1) \<Rightarrow>
          (case Random_gauss (lean d) 0.35 rng1 of
             (x, rng2) \<Rightarrow>
               sampleMembers_engine_loop districts probs is (ms @ [sampled_member i d x]) rng2))"

definition sampleMembers_engine ::
  "District list \<Rightarrow> int \<Rightarrow> int \<Rightarrow> js_error + (Member list \<times> int)" where
  "sampleMembers_engine districts n rng =
     (let pops = map (\<lambda>d. max 1 (population d)) districts;
          total = foldl (+) 0 pops;
          probs = map (\<lambda>p. p / total) pops
      in sampleMembers_engine_loop districts probs [0..<nat n] [] rng)"

subsection \<open>\<^verbatim>\<open>pickSpokespeople\<close>\<close>

text \<open>
  \<^verbatim>\<open>chosen\<close> and \<^verbatim>\<open>seen\<close> travel together; \<^verbatim>\<open>seen\<close> is the list of ids in the order
  they were added, without repetition, so its length is \<^verbatim>\<open>seen.size\<close>.
\<close>

type_synonym picked = "Member list \<times> string list"

definition pick_if_new :: "Member \<Rightarrow> picked \<Rightarrow> picked" where
  \<comment> \<open>\<^verbatim>\<open>if (!seen.has(m.member_id)) { chosen.push(m); seen.add(m.member_id); }\<close>\<close>
  "pick_if_new m cs =
     (case cs of (chosen, seen) \<Rightarrow>
        if member_id m \<notin> set seen then (chosen @ [m], seen @ [member_id m]) else cs)"

text \<open>
  The back-fill loop \<^verbatim>\<open>while (chosen.length < k && mid.length > 0)\<close>.  It draws from
  \<^verbatim>\<open>Math.random\<close> until enough new members were hit, so it need not terminate: \<open>None\<close>
  is a run that never leaves the loop.  The argument \<open>n\<close> is \<^verbatim>\<open>members.length\<close>.
\<close>

partial_function (option) fill_rest ::
  "env \<Rightarrow> nat \<Rightarrow> nat \<Rightarrow> Member list \<Rightarrow> picked \<Rightarrow> world \<Rightarrow> (js_error + (picked \<times> world)) option" where
  "fill_rest e k n mid cs w =
     (if length (fst cs) < k \<and> mid \<noteq> [] then
        (case Math_random e w of
           (x, w1) \<Rightarrow>
             (case js_index mid \<lfloor>x * real (length mid)\<rfloor> of
                None \<Rightarrow> Some (Inl (TypeError ''m is undefined''))
              | Some m \<Rightarrow>
                  if length (fst (pick_if_new m cs)) < k \<and> n \<le> length (snd (pick_if_new m cs))
                  then Some (Inr (pick_if_new m cs, w1))
                  else fill_rest e k n mid (pick_if_new m cs) w1))
      else Some (Inr (cs, w)))"

definition pickSpokespeople ::
  "env \<Rightarrow> Member list \<Rightarrow> nat \<Rightarrow> world \<Rightarrow> (js_error + (Member list \<times> world)) option" where
  "pickSpokespeople e ms k w =
     (let sortedM = sort_key ideology ms
      in if length sortedM \<le> k then Some (Inr (sortedM, w))
         else
           (let len = length sortedM;
                idxs = [0, len div 4, len div 2, 3 * len div 4, len - 1];
                cs = foldl (\<lambda>cs i. pick_if_new (sortedM ! i) cs) ([], []) idxs;
                midStart = len div 4;
                midEnd = 3 * len div 4;
                mid = take (midEnd - midStart) (drop midStart sortedM)
            in case fill_rest e k (length ms) mid cs w of
                 None \<Rightarrow> None
               | Some (Inl err) \<Rightarrow> Some (Inl err)
               | Some (Inr ((chosen, seen), w1)) \<Rightarrow> Some (Inr (sort_key ideology chosen, w1))))"

subsection \<open>\<^verbatim>\<open>asyncVote\<close>\<close>

fun asyncVote_loop ::
  "env \<Rightarrow> Member list \<Rightarrow> Bill \<Rightarrow> bool \<Rightarrow> string \<Rightarrow> counts \<Rightarrow> world \<Rightarrow> counts \<times> world" where
  "asyncVote_loop e [] b useLlm' llmModel c w = (c, w)"
| "asyncVote_loop e (m # ms) b useLlm' llmModel (y, n, a) w =
     (case decideVote e m b useLlm' llmModel w of
        (decision, w1) \<Rightarrow>
          asyncVote_loop e ms b useLlm' llmModel
            (if vote' decision = ''yes'' then (y + 1, n, a)
             else if vote' decision = ''no'' then (y, n + 1, a)
             else (y, n, a + 1)) w1)"

definition asyncVote ::
  "env \<Rightarrow> Member list \<Rightarrow> Bill \<Rightarrow> bool \<Rightarrow> string \<Rightarrow> real \<Rightarrow> world \<Rightarrow> ApiVote \<times> world" where
  "asyncVote e ms b useLlm' llmModel thr w =
     (case asyncVote_loop e ms b useLlm' llmModel (0, 0, 0) w of
        ((y, n, a), w1) \<Rightarrow>
          (\<lparr>yes = y, no = n, abstain = a,
            passed = (real_of_int y / real_of_int (max 1 (y + n)) \<ge> thr),
            threshold = thr\<rparr>, w1))"

subsection \<open>\<^verbatim>\<open>runSimulation\<close>\<close>

fun engine_speeches ::
  "env \<Rightarrow> Member list \<Rightarrow> Bill \<Rightarrow> bool \<Rightarrow> string \<Rightarrow> Speech list \<Rightarrow> world
     \<Rightarrow> Speech list \<times> world" where
  "engine_speeches e [] b useLlm' llmModel sps w = (sps, w)"
| "engine_speeches e (s # ss) b useLlm' llmModel sps w =
     (case decideVote e s b useLlm' llmModel w of
        (decision, w1) \<Rightarrow>
          (let stance0 = amend;
               stance1 = (if vote' decision = ''yes'' then support else stance0);
               stance' = (if vote' decision = ''no'' then oppose else stance1)
           in case generateSpeech e s stance' b useLlm' llmModel w1 of
                (txt, w2) \<Rightarrow>
                  engine_speeches e ss b useLlm' llmModel
                    (sps @ [\<lparr>member_id = member_id s, stance = stance', text' = txt,
                             rationale = []\<rparr>]) w2))"

text \<open>
  The body of the round loop up to \<^verbatim>\<open>allRounds.push\<close>, then the two statements
  \<^verbatim>\<open>if (voteResult.passed) break;\<close> and \<^verbatim>\<open>if (!voteResult.passed) break;\<close>, then
  the loop.
\<close>

definition leaves_loop :: "ApiVote \<Rightarrow> bool" where
  "leaves_loop voteResult =
     (if passed voteResult then True else if \<not> passed voteResult then True else False)"

definition engine_round ::
  "env \<Rightarrow> Member list \<Rightarrow> Bill \<Rightarrow> bool \<Rightarrow> string \<Rightarrow> int \<Rightarrow> world
     \<Rightarrow> (js_error + (ApiVote ApiRound \<times> world)) option" where
  "engine_round e ms currentBill' useLlm' llmModel r w =
     (case pickSpokespeople e ms 7 w of
        None \<Rightarrow> None
      | Some (Inl err) \<Rightarrow> Some (Inl err)
      | Some (Inr (spokes, w1)) \<Rightarrow>
          (case engine_speeches e spokes currentBill' useLlm' llmModel [] w1 of
             (sps, w2) \<Rightarrow>
               (case asyncVote e ms currentBill' useLlm' llmModel 0.5 w2 of
                  (voteResult, w3) \<Rightarrow>
                    Some (Inr (\<lparr>round_index = r, speeches = sps, vote = voteResult\<rparr>, w3)))))"

function engine_loop ::
  "env \<Rightarrow> Member list \<Rightarrow> Bill \<Rightarrow> bool \<Rightarrow> string \<Rightarrow> int \<Rightarrow> int \<Rightarrow> ApiVote ApiRound list \<Rightarrow> world
     \<Rightarrow> (js_error + (ApiVote ApiRound list \<times> world)) option" where
  "engine_loop e ms currentBill' useLlm' llmModel R r allRounds' w =
     (if r < R then
        (case engine_round e ms currentBill' useLlm' llmModel r w of
           None \<Rightarrow> None
         | Some (Inl err) \<Rightarrow> Some (Inl err)
         | Some (Inr (rd, w1)) \<Rightarrow>
             if leaves_loop (vote rd) then Some (Inr (allRounds' @ [rd], w1))
             else engine_loop e ms currentBill' useLlm' llmModel R (r + 1) (allRounds' @ [rd]) w1)
      else Some (Inr (allRounds', w)))"
  by pat_completeness auto

termination engine_loop
  by (relation "measure (\<lambda>(e, ms, b, u, l, R, r, rs, w). nat (R - r))") auto

declare engine_loop.simps [simp del]

definition runSimulation ::
  "env \<Rightarrow> District list \<Rightarrow> int \<Rightarrow> int \<Rightarrow> Bill \<Rightarrow> bool \<Rightarrow> string \<Rightarrow> int option \<Rightarrow> world
     \<Rightarrow> (js_error + (int, ApiVote ApiRound) SimulationResult) option" where
  "runSimulation e districts numMembers' rounds' b useLlm' llmModel seed w =
     (let rng = Random_new seed (Date_now e)
      in if districts = [] then Some (Inl (Error ''No active districts are loaded.''))
         else
           (case sampleMembers_engine districts numMembers' rng of
              Inl err \<Rightarrow> Some (Inl err)
            | Inr (ms, rng1) \<Rightarrow>
                (case engine_loop e ms b useLlm' llmModel rounds' 0 [] w of
                   None \<Rightarrow> None
                 | Some (Inl err) \<Rightarrow> Some (Inl err)
                 | Some (Inr (allRounds', w1)) \<Rightarrow>
                     Some (Inr \<lparr>members = numMembers', rounds = allRounds',
                                final_passed = (if allRounds' \<noteq> []
                                                then passed (vote (last allRounds')) else False)\<rparr>))))"

section \<open>Sample inputs\<close>

text \<open>The districts of \<^verbatim>\<open>loadMockDistricts\<close> (\<^verbatim>\<open>simulation/state.ts\<close>).\<close>

definition loadMockDistricts :: "District list" where
  "loadMockDistricts =
     [\<lparr>district_id = ''mock-1'', name = ''Mock District 1 (Left)'', lean = 0.6,
       population = 750000,
       weights = [(''economy'', 0.2), (''climate'', 0.3), (''healthcare'', 0.3),
                  (''immigration'', 0.1), (''education'', 0.1)],
       description = None, industries = None, demographics_text = Some ''Urban, High Income''\<rparr>,
      \<lparr>district_id = ''mock-2'', name = ''Mock District 2 (Right)'', lean = - 0.6,
       population = 750000,
       weights = [(''economy'', 0.4), (''climate'', 0.1), (''healthcare'', 0.1),
                  (''immigration'', 0.3), (''education'', 0.1)],
       description = None, industries = None, demographics_text = Some ''Rural, Middle Income''\<rparr>,
      \<lparr>district_id = ''mock-3'', name = ''Mock District 3 (Center)'', lean = 0.05,
       population = 750000,
       weights = [(''economy'', 0.5), (''climate'', 0.1), (''healthcare'', 0.1),
                  (''immigration'', 0.1), (''education'', 0.2)],
       description = None, industries = None, demographics_text = Some ''Suburban''\<rparr>]"

definition mock_summary :: DistrictSummary where
  \<comment> \<open>what \<^verbatim>\<open>setActiveDistricts(mocks, "mock", {})\<close> stores\<close>
  "mock_summary = \<lparr>source = ''mock'', count = 3, sample = take 5 loadMockDistricts\<rparr>"

definition whales_bill :: Bill where
  "whales_bill =
     \<lparr>title = ''Save the Whales Act'',
      summary = ''This bill bans all whale hunting and provides funding for marine sanctuaries.'',
      text_content = None, issue_vector = []\<rparr>"

definition world0 :: world where
  "world0 = \<lparr>random_calls = 0, chat_calls = 0, fetch_calls = 0\<rparr>"

definition no_engine :: globals where
  "no_engine = \<lparr>loadedEngine = False, currentModelId = None\<rparr>"

definition quiet_env :: env where
  \<comment> \<open>every draw is \<open>1/2\<close>, the engine and the endpoint fail\<close>
  "quiet_env = \<lparr>math_random = (\<lambda>k. 0.5), chat = (\<lambda>k. Throws), reload_fails = False,
                fetch_generate = (\<lambda>k. Rejects), JSON_parse = (\<lambda>s. None), Date_now = 0\<rparr>"

definition heuristic_opts :: SimOptions where
  "heuristic_opts =
     \<lparr>bill = whales_bill, districtSummary = mock_summary, numMembers = 3, rounds_opt = 2,
      useLlm = False, llmConfig = None, seed_opt = Some 42, parallelLimit = None\<rparr>"

definition high_draws :: env where
  \<comment> \<open>as \<open>quiet_env\<close>, but every draw of \<^verbatim>\<open>Math.random\<close> is \<open>0.9\<close>\<close>
  "high_draws = quiet_env\<lparr>math_random := (\<lambda>k. 0.9)\<rparr>"

definition low_draws :: env where
  \<comment> \<open>as \<open>quiet_env\<close>, but every draw of \<^verbatim>\<open>Math.random\<close> is \<open>0.1\<close>\<close>
  "low_draws = quiet_env\<lparr>math_random := (\<lambda>k. 0.1)\<rparr>"

text \<open>
  A chamber of three members with the engine in use, for three rounds.  Of the engine's
  answers, numbers 10, 22 and 34 are the batch votes of the three rounds, numbers 11 and 23
  the amendments, and the rest the thoughts and speeches of the five speakers of each
  round: against the bill in the first two rounds, for it in the third.
\<close>

definition scenario_chat :: "nat \<Rightarrow> completion" where
  "scenario_chat k =
     (if k = 10 \<or> k = 22 then Content (Some ''M-0001: NO M-0002: NO M-0003: NO'')
      else if k = 34 then Content (Some ''M-0001: YES M-0002: YES M-0003: YES'')
      else if k = 11 then Content (Some ''Add a sunset clause.'')
      else if k = 23 then Content (Some ''Fund it from existing budgets.'')
      else if k < 24 then Content (Some ''No.'')
      else Content (Some ''Yes.''))"

definition scenario_env :: env where
  "scenario_env = quiet_env\<lparr>chat := scenario_chat\<rparr>"

definition scenario_opts :: SimOptions where
  "scenario_opts =
     \<lparr>bill = whales_bill, districtSummary = mock_summary, numMembers = 3, rounds_opt = 3,
      useLlm = True, llmConfig = Some ''Llama-3.2-1B-Instruct-q4f16_1-MLC'', seed_opt = Some 42,
      parallelLimit = None\<rparr>"

text \<open>The same chamber, but the engine throws when asked for the first amendment.\<close>

definition amendment_throws_env :: env where
  "amendment_throws_env =
     quiet_env\<lparr>chat := (\<lambda>k. if k = 11 then Throws else scenario_chat k)\<rparr>"

text \<open>
  A local model that answers \<^verbatim>\<open>{"vote": "Maybe"}\<close>, with \<^verbatim>\<open>JSON.parse\<close> given on that
  text, and a member and model name as in the repository's test script.
\<close>

definition maybe_text :: string where
  "maybe_text = ''{'' @ [CHR 0x22] @ ''vote'' @ [CHR 0x22] @ '': '' @ [CHR 0x22] @ ''Maybe''
                  @ [CHR 0x22] @ ''}''"

definition maybe_env :: env where
  "maybe_env =
     quiet_env\<lparr>fetch_generate := (\<lambda>k. Response True (Some maybe_text)),
               JSON_parse := (\<lambda>s. if s = maybe_text then Some (JObj [(''vote'', JStr ''Maybe'')])
                                  else None)\<rparr>"

definition mockMember :: Member where
  "mockMember =
     \<lparr>member_id = ''M001'',
      district = \<lparr>district_id = ''D01'', name = ''Test Dist'', lean = 0.5, population = 1000,
                  weights = [(''economy'', 0.8), (''climate'', 0.2)],
                  description = None, industries = None, demographics_text = None\<rparr>,
      ideology = 0.4, party_hint = ''Blue''\<rparr>"

text \<open>
  Two members and one round with the engine in use: the member from the right-leaning
  district speaks twice against the bill, the other three times for it, and the batch vote
  agrees with the speeches.
\<close>

definition tie_chat :: "nat \<Rightarrow> completion" where
  "tie_chat k =
     (if k = 10 then Content (Some ''M-0001: YES M-0002: NO'')
      else if k < 4 then Content (Some ''No.'')
      else Content (Some ''Yes.''))"

definition tie_env :: env where
  "tie_env = quiet_env\<lparr>chat := tie_chat\<rparr>"

definition tie_opts :: SimOptions where
  "tie_opts = scenario_opts\<lparr>numMembers := 2, rounds_opt := 1\<rparr>"

definition five_opts :: SimOptions where
  \<comment> \<open>the three-round chamber with five members\<close>
  "five_opts = scenario_opts\<lparr>numMembers := 5\<rparr>"

definition split_draws :: env where
  \<comment> \<open>as \<open>quiet_env\<close>, but the draws of \<^verbatim>\<open>Math.random\<close> are \<open>0.9, 0.1, 0.9, 0.1, \<dots>\<close>\<close>
  "split_draws = quiet_env\<lparr>math_random := (\<lambda>k. if even k then 0.9 else 0.1)\<rparr>"

text \<open>
  Three members and one round with the engine in use.  The member from the centre district
  speaks for the bill, the other two against it; the reply to the batch vote agrees with
  the speeches and goes on to name two ids that no member has.
\<close>

definition phantom_chat :: "nat \<Rightarrow> completion" where
  "phantom_chat k =
     (if k = 10 then Content (Some ''M-0001: NO M-0002: NO M-0003: YES M-0004: YES M-0005: YES'')
      else if k = 4 \<or> k = 5 then Content (Some ''Yes.'')
      else Content (Some ''No.''))"

definition phantom_env :: env where
  "phantom_env = quiet_env\<lparr>chat := phantom_chat\<rparr>"

definition one_round_opts :: SimOptions where
  "one_round_opts = scenario_opts\<lparr>rounds_opt := 1\<rparr>"

section \<open>The random source: weighted choice\<close>

lemma choice_scan_NaN: "choice_scan items ws r None = None"
  by (induction items arbitrary: ws) simp_all

lemma choice_scan_zeros:
  "\<forall>w\<in>set ws. w = 0 \<Longrightarrow> choice_scan items ws 0 (Some 0) = None"
proof (induction items arbitrary: ws)
  case Nil
  then show ?case by simp
next
  case (Cons x xs)
  show ?case
  proof (cases ws)
    case Nil
    then show ?thesis by (simp add: choice_scan_NaN)
  next
    case (Cons w ws')
    then have "w = 0" and "\<forall>w\<in>set ws'. w = 0" using Cons.prems by simp_all
    then show ?thesis using Cons Cons.IH [of ws'] by simp
  qed
qed

lemma nonneg_sum_zero:
  "\<forall>w\<in>set ws. (0::real) \<le> w \<Longrightarrow> sum_list ws = 0 \<Longrightarrow> \<forall>w\<in>set ws. w = 0"
  using sum_list_nonneg_eq_0_iff [of ws] by blast

lemma foldl_plus_sum_list: "foldl (+) (a::real) ws = a + sum_list ws"
  by (induction ws arbitrary: a) simp_all

text \<open>
  C6 (as amended).  \<^verbatim>\<open>choice\<close> on an empty item list throws \<^verbatim>\<open>Error("Empty items")\<close>;
  without weights it returns the item at index \<open>floor (next() * items.length)\<close>; with
  non-negative weights whose sum is zero it returns the last item.  In each case exactly
  one draw of \<^verbatim>\<open>next\<close> is consumed, and none on the error.
\<close>

theorem choice_contract:
  "Random_choice [] weights' seed = Inl (Error ''Empty items'')
   \<and> (items \<noteq> [] \<longrightarrow>
        Random_choice items None seed =
          Inr (js_index items \<lfloor>fst (Random_next seed) * real (length items)\<rfloor>,
               snd (Random_next seed)))
   \<and> (items \<noteq> [] \<and> (\<forall>w\<in>set ws. 0 \<le> w) \<and> sum_list ws = 0 \<longrightarrow>
        Random_choice items (Some ws) seed = Inr (Some (last items), snd (Random_next seed)))"
proof (intro conjI impI)
  show "Random_choice [] weights' seed = Inl (Error ''Empty items'')"
    by (simp add: Random_choice_def)
next
  assume "items \<noteq> []"
  then show "Random_choice items None seed =
          Inr (js_index items \<lfloor>fst (Random_next seed) * real (length items)\<rfloor>,
               snd (Random_next seed))"
    by (simp add: Random_choice_def split: prod.splits)
next
  assume h: "items \<noteq> [] \<and> (\<forall>w\<in>set ws. 0 \<le> w) \<and> sum_list ws = 0"
  then have z: "\<forall>w\<in>set ws. w = 0" using nonneg_sum_zero by blast
  have t: "foldl (+) 0 ws = 0" using h by (simp add: foldl_plus_sum_list)
  show "Random_choice items (Some ws) seed = Inr (Some (last items), snd (Random_next seed))"
    using h by (simp add: Random_choice_def t choice_scan_zeros [OF z] split: prod.splits)
qed

theorem choice_contract_witness:
  "Random_choice ([] :: nat list) None 42 = Inl (Error ''Empty items'')
   \<and> Random_choice [10, 20, 30 :: nat] None 42 = Inr (Some 10, 1083814273)
   \<and> Random_choice [10, 20, 30 :: nat] (Some [0, 0, 0]) 42 = Inr (Some 30, 1083814273)"
proof -
  have n: "Random_next 42 = (1083814273 / 4294967296, 1083814273)"
    by (simp add: Random_next_def js_rem_def to_double_small)
  have i: "js_index [10, 20, 30 :: nat] \<lfloor>(1083814273 / 4294967296 :: real) * 3\<rfloor> = Some 10"
    by (simp add: js_index_def)
  show ?thesis
    using choice_contract [of None 42 "[10, 20, 30 :: nat]" "[0, 0, 0]"] n i by simp
qed

text \<open>
  The claim as written asks only that the weights sum to zero.  With weights \<open>1\<close> and \<open>-1\<close>
  the first running sum is \<open>1\<close>, above \<open>r = 0\<close>, and the first item is returned.
\<close>

theorem choice_zero_sum_counterexample:
  "sum_list [1, - 1 :: real] = 0
   \<and> Random_choice [''a'', ''b''] (Some [1, - 1]) 42 = Inr (Some ''a'', 1083814273)
   \<and> last [''a'', ''b''] \<noteq> ''a''"
  by (simp add: Random_choice_def Random_next_def js_rem_def to_double_small)

section \<open>Lemmas about the browser orchestrator\<close>

lemma init_engine_no_llm: "\<not> useLlm opts \<Longrightarrow> init_engine e g opts = Inr g"
  by (simp add: init_engine_def split: option.splits)

lemma sampleMembers_loop_ok:
  assumes "districts \<noteq> []"
  shows "\<exists>ms' w'. sampleMembers_loop e districts js ms w = Inr (ms', w')
           \<and> map member_id ms' = map member_id ms @ map member_label js"
  using assms
proof (induction js arbitrary: ms w)
  case Nil
  then show ?case by simp
next
  case (Cons i js)
  have "0 \<le> int i mod int (length districts)" "int i mod int (length districts) < int (length districts)"
    using Cons.prems by simp_all
  then obtain d where d: "js_index districts (int i mod int (length districts)) = Some d"
    by (simp add: js_index_def)
  obtain x w1 where x: "Math_random e w = (x, w1)" by (cases "Math_random e w")
  have step: "sampleMembers_loop e districts (i # js) ms w
                = sampleMembers_loop e districts js (ms @ [new_member i d x]) w1"
    using d x by simp
  show ?case
    using Cons.IH [OF Cons.prems, of "ms @ [new_member i d x]" w1] unfolding step
    by (simp add: new_member_def Let_def)
qed

lemma sampleMembers_ok:
  assumes "smp \<noteq> []"
  shows "\<exists>ms w'. sampleMembers e (filledDistricts smp n) n sd w = Inr (ms, w')
           \<and> map member_id ms = map member_label [0..<nat n]"
proof (cases "0 < n")
  case True
  then have "filledDistricts smp n \<noteq> []" by (simp add: filledDistricts_def)
  from sampleMembers_loop_ok [OF this, of e "[0..<nat n]" "[]" w]
  show ?thesis by (simp add: sampleMembers_def)
next
  case False
  then show ?thesis by (simp add: sampleMembers_def)
qed

lemma floor_quarter: "\<lfloor>real_of_int k * 0.25\<rfloor> = k div 4"
  and floor_half: "\<lfloor>real_of_int k * 0.5\<rfloor> = k div 2"
  and floor_three_quarters: "\<lfloor>real_of_int k * 0.75\<rfloor> = (3 * k) div 4"
proof -
  have "real_of_int k * 0.25 = real_of_int k / real_of_int 4" by simp
  then show "\<lfloor>real_of_int k * 0.25\<rfloor> = k div 4" by (simp only: floor_divide_of_int_eq)
  have "real_of_int k * 0.5 = real_of_int k / real_of_int 2" by simp
  then show "\<lfloor>real_of_int k * 0.5\<rfloor> = k div 2" by (simp only: floor_divide_of_int_eq)
  have "real_of_int k * 0.75 = real_of_int (3 * k) / real_of_int 4" by simp
  then show "\<lfloor>real_of_int k * 0.75\<rfloor> = (3 * k) div 4" by (simp only: floor_divide_of_int_eq)
qed

lemma pick_speakers_eq:
  "pick_speakers ms =
     (let sorted = sort_key ideology ms; len = int (length ms)
      in [js_index sorted 0, js_index sorted (len div 4), js_index sorted (len div 2),
          js_index sorted ((3 * len) div 4), js_index sorted (len - 1)])"
  unfolding pick_speakers_def floor_quarter floor_half floor_three_quarters
  by (simp add: Let_def)

lemma pick_speakers_defined:
  assumes "ms \<noteq> []"
  shows "\<exists>xs. pick_speakers ms = map Some xs \<and> length xs = 5 \<and> set xs \<subseteq> set ms"
proof -
  define sorted where "sorted = sort_key ideology ms"
  define len where "len = int (length ms)"
  have len: "0 < len" "int (length sorted) = len" using assms by (simp_all add: len_def sorted_def)
  have ix: "js_index sorted i = Some (sorted ! nat i) \<and> sorted ! nat i \<in> set ms" if "0 \<le> i" "i < len" for i
  proof -
    have "nat i < length sorted" using that len by linarith
    then have "sorted ! nat i \<in> set sorted" by (rule nth_mem)
    then show ?thesis using that len by (simp add: js_index_def sorted_def)
  qed
  have b: "0 \<le> len div 4" "len div 4 < len" "0 \<le> len div 2" "len div 2 < len"
    "0 \<le> (3 * len) div 4" "(3 * len) div 4 < len" "0 \<le> len - 1" "len - 1 < len" "(0::int) \<le> 0"
    using len(1) by simp_all
  let ?xs = "[sorted ! nat 0, sorted ! nat (len div 4), sorted ! nat (len div 2),
              sorted ! nat ((3 * len) div 4), sorted ! nat (len - 1)]"
  have p: "pick_speakers ms = map Some ?xs"
    using ix [OF b(9) len(1)] ix [OF b(1,2)] ix [OF b(3,4)] ix [OF b(5,6)] ix [OF b(7,8)]
    unfolding pick_speakers_eq Let_def sorted_def [symmetric] len_def [symmetric] by simp
  have s: "set ?xs \<subseteq> set ms"
    using ix [OF b(9) len(1)] ix [OF b(1,2)] ix [OF b(3,4)] ix [OF b(5,6)] ix [OF b(7,8)] by simp
  have l: "length ?xs = 5" by simp
  show ?thesis using p s l by blast
qed

lemma speech_for_id:
  "speech_for rv e llm m w = Inr (sp, w') \<Longrightarrow> member_id sp = member_id m"
  unfolding speech_for_def Let_def
  by (auto split: if_splits prod.splits completion.splits revision.splits)

lemma speech_for_no_llm_ok: "\<exists>sp w'. speech_for rv e False m w = Inr (sp, w')"
  unfolding speech_for_def Let_def
  by (cases rv; cases "Math_random e w") simp_all

lemma speeches_loop_ids:
  "speeches_loop rv e llm (map Some xs) sps w = Inr (sps', w')
     \<Longrightarrow> map member_id sps' = map member_id sps @ map member_id xs"
proof (induction xs arbitrary: sps w)
  case Nil
  then show ?case by simp
next
  case (Cons x xs)
  from Cons.prems obtain sp w1 where sp: "speech_for rv e llm x w = Inr (sp, w1)"
    and rest: "speeches_loop rv e llm (map Some xs) (sps @ [sp]) w1 = Inr (sps', w')"
    by (auto split: sum.splits)
  show ?case using Cons.IH [OF rest] speech_for_id [OF sp] by simp
qed

lemma speeches_loop_no_llm_ok:
  "\<exists>sps' w'. speeches_loop rv e False (map Some xs) sps w = Inr (sps', w')"
proof (induction xs arbitrary: sps w)
  case Nil
  then show ?case by simp
next
  case (Cons x xs)
  obtain sp w1 where "speech_for rv e False x w = Inr (sp, w1)"
    using speech_for_no_llm_ok by blast
  then show ?case using Cons.IH [of "sps @ [sp]" w1] by simp
qed

lemma speeches_loop_undefined:
  "speeches_loop rv e llm (None # ss) sps w = Inl (TypeError ''s is undefined'')"
  by simp

lemma conclude_round_shape:
  assumes "conclude_round e llm R r st sps voteRes w2 = Inr (st', stop)"
  shows "\<exists>am.
      allRounds st' = allRounds st @ [\<lparr>round_index = r, speeches = sps, vote = voteRes, amendment = am\<rparr>]
    \<and> stop = passed voteRes
    \<and> (am \<noteq> None \<longleftrightarrow> llm \<and> \<not> passed voteRes \<and> r < R - 1)
    \<and> currentBill st' = (case am of None \<Rightarrow> currentBill st
          | Some a \<Rightarrow> (currentBill st)\<lparr>summary := summary (currentBill st) @ amendment_suffix r a\<rparr>)
    \<and> (\<forall>a. am = Some a \<longrightarrow> (\<exists>w3. generateAmendment e (currentBill st) sps True w2 = Inr (a, w3)))"
proof (cases "passed voteRes")
  case True
  then show ?thesis using assms by (auto simp: conclude_round_def Let_def)
next
  case False
  show ?thesis
  proof (cases "llm \<and> r < R - 1")
    case True
    then obtain a w3 where g: "generateAmendment e (currentBill st) sps True w2 = Inr (a, w3)"
      using assms False by (auto simp: conclude_round_def Let_def split: sum.splits)
    have "allRounds st' = allRounds st @ [\<lparr>round_index = r, speeches = sps, vote = voteRes, amendment = Some a\<rparr>]"
      and "currentBill st' = (currentBill st)\<lparr>summary := summary (currentBill st) @ amendment_suffix r a\<rparr>"
      and "\<not> stop"
      using assms False True g by (auto simp: conclude_round_def Let_def)
    then show ?thesis using False True g by auto
  next
    case f: False
    then have "allRounds st' = allRounds st @ [\<lparr>round_index = r, speeches = sps, vote = voteRes, amendment = None\<rparr>]"
      and "currentBill st' = currentBill st" and "\<not> stop"
      using assms False by (auto simp: conclude_round_def Let_def split: if_splits)
    then show ?thesis using False f by auto
  qed
qed

lemma client_round_shape:
  assumes "client_round rv e llm pl ms n R r st = Inr (st', stop)"
  shows "\<exists>sps w1 voteRes w2 am.
      speeches_loop rv e llm (pick_speakers ms) [] (run_world st) = Inr (sps, w1)
    \<and> vote_phase rv e llm pl (currentBill st) ms n sps w1 = (voteRes, w2)
    \<and> allRounds st' = allRounds st @ [\<lparr>round_index = r, speeches = sps, vote = voteRes, amendment = am\<rparr>]
    \<and> stop = passed voteRes
    \<and> (am \<noteq> None \<longleftrightarrow> llm \<and> \<not> passed voteRes \<and> r < R - 1)
    \<and> currentBill st' = (case am of None \<Rightarrow> currentBill st
          | Some a \<Rightarrow> (currentBill st)\<lparr>summary := summary (currentBill st) @ amendment_suffix r a\<rparr>)
    \<and> (\<forall>a. am = Some a \<longrightarrow> (\<exists>w3. generateAmendment e (currentBill st) sps True w2 = Inr (a, w3)))"
proof -
  from assms obtain sps w1 where sp: "speeches_loop rv e llm (pick_speakers ms) [] (run_world st) = Inr (sps, w1)"
    by (auto simp: client_round_def split: sum.splits)
  obtain voteRes w2 where v: "vote_phase rv e llm pl (currentBill st) ms n sps w1 = (voteRes, w2)"
    by (cases "vote_phase rv e llm pl (currentBill st) ms n sps w1")
  have c: "conclude_round e llm R r st sps voteRes w2 = Inr (st', stop)"
    using assms sp v by (simp add: client_round_def)
  from conclude_round_shape [OF c] sp v show ?thesis by blast
qed

lemma client_loop_trace:
  assumes step: "\<And>r st st' stop. client_round rv e llm pl ms n R r st = Inr (st', stop)
                   \<Longrightarrow> Q (last (allRounds st'))"
    and run: "client_loop rv e llm pl ms n R r st = Inr st'"
  shows "\<exists>rs. allRounds st' = allRounds st @ rs
        \<and> (\<forall>i<length rs. round_index (rs ! i) = r + int i)
        \<and> length rs \<le> nat (R - r) \<and> (r < R \<longrightarrow> rs \<noteq> [])
        \<and> (\<forall>i. Suc i < length rs \<longrightarrow> \<not> passed (vote (rs ! i)))
        \<and> (rs \<noteq> [] \<longrightarrow> passed (vote (last rs)) \<or> length rs = nat (R - r))
        \<and> (\<forall>rd\<in>set rs. Q rd \<and> (amendment rd \<noteq> None \<longleftrightarrow>
                                 llm \<and> \<not> passed (vote rd) \<and> round_index rd < R - 1))"
  using step run
proof (induction rv e llm pl ms n R r st arbitrary: st' rule: client_loop.induct)
  case (1 rv e llm pl ms n R r st)
  note step' = "1.prems"(1) and run' = "1.prems"(2)
  show ?case
  proof (cases "r < R")
    case False
    then have "st' = st" using run' by (simp add: client_loop.simps)
    then show ?thesis using False by simp
  next
    case True
    then obtain st1 stop where cr: "client_round rv e llm pl ms n R r st = Inr (st1, stop)"
      using run' by (subst (asm) client_loop.simps) (auto split: sum.splits)
    from client_round_shape [OF cr] obtain sps voteRes am where
      ar: "allRounds st1 = allRounds st @ [\<lparr>round_index = r, speeches = sps, vote = voteRes, amendment = am\<rparr>]"
      and stop: "stop = passed voteRes"
      and am: "am \<noteq> None \<longleftrightarrow> llm \<and> \<not> passed voteRes \<and> r < R - 1"
      by blast
    define rd where "rd = \<lparr>round_index = r, speeches = sps, vote = voteRes, amendment = am\<rparr>"
    have q: "Q rd" using step' [OF cr] ar by (simp add: rd_def)
    have rdf: "round_index rd = r" "vote rd = voteRes" "amendment rd = am" by (simp_all add: rd_def)
    have good: "Q rd \<and> (amendment rd \<noteq> None \<longleftrightarrow> llm \<and> \<not> passed (vote rd) \<and> round_index rd < R - 1)"
      using q am rdf by simp
    show ?thesis
    proof (cases stop)
      case True
      then have "st' = st1" using run' \<open>r < R\<close> cr by (subst (asm) client_loop.simps) simp
      then have "allRounds st' = allRounds st @ [rd]" using ar by (simp add: rd_def)
      moreover have "passed (vote rd)" using True stop rdf by simp
      ultimately show ?thesis using good \<open>r < R\<close> rdf
        by (intro exI [of _ "[rd]"]) auto
    next
      case False
      then have next_run: "client_loop rv e llm pl ms n R (r + 1) st1 = Inr st'"
        using run' \<open>r < R\<close> cr by (subst (asm) client_loop.simps) simp
      have "\<exists>rs. allRounds st' = allRounds st1 @ rs
        \<and> (\<forall>i<length rs. round_index (rs ! i) = r + 1 + int i)
        \<and> length rs \<le> nat (R - (r + 1)) \<and> (r + 1 < R \<longrightarrow> rs \<noteq> [])
        \<and> (\<forall>i. Suc i < length rs \<longrightarrow> \<not> passed (vote (rs ! i)))
        \<and> (rs \<noteq> [] \<longrightarrow> passed (vote (last rs)) \<or> length rs = nat (R - (r + 1)))
        \<and> (\<forall>rd\<in>set rs. Q rd \<and> (amendment rd \<noteq> None \<longleftrightarrow>
                                 llm \<and> \<not> passed (vote rd) \<and> round_index rd < R - 1))"
      proof (rule "1.IH" [OF \<open>r < R\<close> cr refl False])
        show "\<And>r st st' stop. client_round rv e llm pl ms n R r st = Inr (st', stop)
                \<Longrightarrow> Q (last (allRounds st'))"
          by (rule step')
        show "client_loop rv e llm pl ms n R (r + 1) st1 = Inr st'" by (rule next_run)
      qed
      then obtain rs where rs: "allRounds st' = allRounds st1 @ rs"
        and ix: "\<forall>i<length rs. round_index (rs ! i) = r + 1 + int i"
        and len: "length rs \<le> nat (R - (r + 1))"
        and ne: "r + 1 < R \<longrightarrow> rs \<noteq> []"
        and np: "\<forall>i. Suc i < length rs \<longrightarrow> \<not> passed (vote (rs ! i))"
        and lst: "rs \<noteq> [] \<longrightarrow> passed (vote (last rs)) \<or> length rs = nat (R - (r + 1))"
        and all: "\<forall>rd\<in>set rs. Q rd \<and> (amendment rd \<noteq> None \<longleftrightarrow>
                                 llm \<and> \<not> passed (vote rd) \<and> round_index rd < R - 1)"
        by blast
      have nprd: "\<not> passed (vote rd)" using False stop rdf by simp
      have a: "allRounds st' = allRounds st @ (rd # rs)" using rs ar by (simp add: rd_def)
      have b: "\<forall>i<length (rd # rs). round_index ((rd # rs) ! i) = r + int i"
      proof (intro allI impI)
        fix i assume "i < length (rd # rs)"
        then show "round_index ((rd # rs) ! i) = r + int i"
          using ix rdf by (cases i) auto
      qed
      have c: "length (rd # rs) \<le> nat (R - r)" using len \<open>r < R\<close> by simp
      have d: "\<forall>i. Suc i < length (rd # rs) \<longrightarrow> \<not> passed (vote ((rd # rs) ! i))"
      proof (intro allI impI)
        fix i assume "Suc i < length (rd # rs)"
        then show "\<not> passed (vote ((rd # rs) ! i))"
          using np nprd by (cases i) auto
      qed
      have f: "passed (vote (last (rd # rs))) \<or> length (rd # rs) = nat (R - r)"
      proof (cases "rs = []")
        case True
        then have "\<not> r + 1 < R" using ne by blast
        then have "nat (R - r) = 1" using \<open>r < R\<close> by linarith
        then show ?thesis using True by simp
      next
        case False
        then show ?thesis using lst \<open>r < R\<close> by auto
      qed
      have g: "\<forall>rd'\<in>set (rd # rs). Q rd' \<and> (amendment rd' \<noteq> None \<longleftrightarrow>
                                 llm \<and> \<not> passed (vote rd') \<and> round_index rd' < R - 1)"
        using good all by simp
      show ?thesis
        using a b c d f g by (intro exI [of _ "rd # rs"]) simp
    qed
  qed
qed

lemma runSimulationClient_cases:
  assumes "runSimulationClient rv e g opts w = Inr res"
  shows "\<exists>g' ms w1 st.
      init_engine e g opts = Inr g'
    \<and> sample (districtSummary opts) \<noteq> []
    \<and> map member_id ms = map member_label [0..<nat (numMembers opts)]
    \<and> client_loop rv e (useLlm opts \<and> loadedEngine g') (parallelLimit opts) ms
          (numMembers opts) (rounds_opt opts) 0
          \<lparr>currentBill = bill opts, allRounds = [], run_notes = [], run_world = w1\<rparr> = Inr st
    \<and> members res = ms \<and> rounds res = allRounds st
    \<and> final_passed res = final_passed_of (allRounds st)"
proof -
  from assms obtain g' where g: "init_engine e g opts = Inr g'"
    by (auto simp: runSimulationClient_def split: sum.splits)
  have ne: "sample (districtSummary opts) \<noteq> []"
    using assms g by (auto simp: runSimulationClient_def split: if_splits)
  let ?sd = "case seed_opt opts of None \<Rightarrow> None | Some s \<Rightarrow> if s = 0 then None else Some s"
  from sampleMembers_ok [OF ne, of e "numMembers opts" ?sd w]
  obtain ms w1 where sm: "sampleMembers e (filledDistricts (sample (districtSummary opts)) (numMembers opts))
        (numMembers opts) ?sd w = Inr (ms, w1)"
    and ids: "map member_id ms = map member_label [0..<nat (numMembers opts)]"
    by blast
  from assms g ne sm obtain st where
    "client_loop rv e (useLlm opts \<and> loadedEngine g') (parallelLimit opts) ms
          (numMembers opts) (rounds_opt opts) 0
          \<lparr>currentBill = bill opts, allRounds = [], run_notes = [], run_world = w1\<rparr> = Inr st"
    and "res = \<lparr>members = ms, rounds = allRounds st,
                  final_passed = final_passed_of (allRounds st), notes' = run_notes st\<rparr>"
    by (auto simp: runSimulationClient_def split: sum.splits)
  then show ?thesis using g ne ids by auto
qed

lemma final_passed_of_last: "rs \<noteq> [] \<Longrightarrow> final_passed_of rs = passed (vote (last rs))"
  by (cases rs) (simp_all add: final_passed_of_def)

lemma final_passed_of_Nil: "final_passed_of [] = False"
  by (simp add: final_passed_of_def)

lemma vote_phase_no_llm: "vote_phase rv e False pl b ms n sps w = (placeholder_vote n, w)"
  by (simp add: vote_phase_def)

lemma client_round_no_llm_ok:
  assumes "ms \<noteq> []"
  shows "\<exists>st' stop. client_round rv e False pl ms n R r st = Inr (st', stop)"
proof -
  from pick_speakers_defined [OF assms] obtain xs where xs: "pick_speakers ms = map Some xs"
    by blast
  from speeches_loop_no_llm_ok [of rv e xs "[]" "run_world st"] obtain sps w1
    where sp: "speeches_loop rv e False (pick_speakers ms) [] (run_world st) = Inr (sps, w1)"
    unfolding xs by blast
  show ?thesis
    unfolding client_round_def sp vote_phase_no_llm
    by (auto simp: conclude_round_def Let_def placeholder_vote_def)
qed

lemma client_loop_no_llm_ok:
  assumes "ms \<noteq> []" and "\<not> llm"
  shows "\<exists>st'. client_loop rv e llm pl ms n R r st = Inr st'"
  using assms
proof (induction rv e llm pl ms n R r st rule: client_loop.induct)
  case (1 rv e llm pl ms n R r st)
  show ?case
  proof (cases "r < R")
    case False
    then show ?thesis by (simp add: client_loop.simps)
  next
    case True
    from client_round_no_llm_ok [OF "1.prems"(1), of rv e pl n R r st] "1.prems"(2)
    obtain st1 stop where cr: "client_round rv e llm pl ms n R r st = Inr (st1, stop)"
      by auto
    show ?thesis
    proof (cases stop)
      case True
      then show ?thesis using cr \<open>r < R\<close> by (subst client_loop.simps) simp
    next
      case False
      from "1.IH" [OF \<open>r < R\<close> cr refl False "1.prems"]
      show ?thesis using cr \<open>r < R\<close> False by (subst client_loop.simps) simp
    qed
  qed
qed

lemma client_round_no_llm_vote:
  assumes "client_round rv e False pl ms n R r st = Inr (st', stop)"
  shows "vote (last (allRounds st')) = placeholder_vote n"
  using client_round_shape [OF assms] by (auto simp: vote_phase_no_llm)

lemma init_engine_loaded:
  assumes "useLlm opts" and "llmConfig opts \<noteq> None" and "init_engine e g opts = Inr g'"
  shows "loadedEngine g'"
  using assms by (auto simp: init_engine_def split: option.splits if_splits)

lemma client_run_trace:
  assumes "runSimulationClient rv e g opts w = Inr res"
    and step: "\<And>ms r st st' stop.
                 map member_id ms = map member_label [0..<nat (numMembers opts)] \<Longrightarrow>
                 client_round rv e (useLlm opts \<and> llmConfig opts \<noteq> None \<or> useLlm opts \<and> loadedEngine g)
                   (parallelLimit opts) ms (numMembers opts) (rounds_opt opts) r st = Inr (st', stop)
                 \<Longrightarrow> Q (last (allRounds st'))"
  shows "(\<forall>i<length (rounds res). round_index (rounds res ! i) = int i)
        \<and> length (rounds res) \<le> nat (rounds_opt opts)
        \<and> (0 < rounds_opt opts \<longrightarrow> rounds res \<noteq> [])
        \<and> (\<forall>i. Suc i < length (rounds res) \<longrightarrow> \<not> passed (vote (rounds res ! i)))
        \<and> (rounds res \<noteq> [] \<longrightarrow> passed (vote (last (rounds res)))
               \<or> length (rounds res) = nat (rounds_opt opts))
        \<and> (\<forall>rd\<in>set (rounds res). Q rd \<and> (amendment rd \<noteq> None \<longleftrightarrow>
              (useLlm opts \<and> llmConfig opts \<noteq> None \<or> useLlm opts \<and> loadedEngine g)
              \<and> \<not> passed (vote rd) \<and> round_index rd < rounds_opt opts - 1))
        \<and> final_passed res = final_passed_of (rounds res)"
proof -
  let ?llm = "useLlm opts \<and> llmConfig opts \<noteq> None \<or> useLlm opts \<and> loadedEngine g"
  from runSimulationClient_cases [OF assms(1)] obtain g' ms w1 st where
    g: "init_engine e g opts = Inr g'"
    and ids: "map member_id ms = map member_label [0..<nat (numMembers opts)]"
    and loop: "client_loop rv e (useLlm opts \<and> loadedEngine g') (parallelLimit opts) ms
          (numMembers opts) (rounds_opt opts) 0
          \<lparr>currentBill = bill opts, allRounds = [], run_notes = [], run_world = w1\<rparr> = Inr st"
    and res: "rounds res = allRounds st" "final_passed res = final_passed_of (allRounds st)"
    by blast
  have llm: "(useLlm opts \<and> loadedEngine g') = ?llm"
    using g by (auto simp: init_engine_def split: option.splits if_splits)
  note loop' = loop [unfolded llm]
  have "\<exists>rs. allRounds st = allRounds \<lparr>currentBill = bill opts, allRounds = [], run_notes = [], run_world = w1\<rparr> @ rs
        \<and> (\<forall>i<length rs. round_index (rs ! i) = 0 + int i)
        \<and> length rs \<le> nat (rounds_opt opts - 0) \<and> (0 < rounds_opt opts \<longrightarrow> rs \<noteq> [])
        \<and> (\<forall>i. Suc i < length rs \<longrightarrow> \<not> passed (vote (rs ! i)))
        \<and> (rs \<noteq> [] \<longrightarrow> passed (vote (last rs)) \<or> length rs = nat (rounds_opt opts - 0))
        \<and> (\<forall>rd\<in>set rs. Q rd \<and> (amendment rd \<noteq> None \<longleftrightarrow>
                                 ?llm \<and> \<not> passed (vote rd) \<and> round_index rd < rounds_opt opts - 1))"
  proof (rule client_loop_trace [OF _ loop'])
    show "\<And>r st st' stop. client_round rv e ?llm (parallelLimit opts) ms (numMembers opts)
              (rounds_opt opts) r st = Inr (st', stop) \<Longrightarrow> Q (last (allRounds st'))"
      using step [OF ids] by blast
  qed
  then show ?thesis using res by auto
qed

lemma tally_votes_passed:
  "threshold (tally_votes votes sps) = 0.5
   \<and> passed (tally_votes votes sps) =
       (real_of_int (yes (tally_votes votes sps))
          > real_of_int (yes (tally_votes votes sps) + no (tally_votes votes sps)) * 0.5)"
  by (simp add: tally_votes_def split: prod.splits)

lemma vote_phase_passed:
  assumes "vote_phase rv e llm pl b ms n sps w = (v, w')"
  shows "threshold v = 0.5
       \<and> passed v = (llm \<and> real_of_int (yes v) > real_of_int (yes v + no v) * 0.5)"
proof (cases llm)
  case True
  then obtain votes where "v = tally_votes votes sps"
    using assms by (auto simp: vote_phase_def split: prod.splits)
  then show ?thesis using True tally_votes_passed [of votes sps] by simp
next
  case False
  then have "v = placeholder_vote n" using assms by (simp add: vote_phase_def)
  then show ?thesis using False by (simp add: placeholder_vote_def)
qed

lemma client_round_passed:
  assumes "client_round rv e llm pl ms n R r st = Inr (st', stop)"
  shows "threshold (vote (last (allRounds st'))) = 0.5
       \<and> passed (vote (last (allRounds st'))) =
           (llm \<and> real_of_int (yes (vote (last (allRounds st'))))
                   > real_of_int (yes (vote (last (allRounds st'))) + no (vote (last (allRounds st')))) * 0.5)"
proof -
  from client_round_shape [OF assms] obtain sps w1 voteRes w2 am where
    v: "vote_phase rv e llm pl (currentBill st) ms n sps w1 = (voteRes, w2)"
    and ar: "allRounds st' = allRounds st @ [\<lparr>round_index = r, speeches = sps, vote = voteRes, amendment = am\<rparr>]"
    by blast
  from vote_phase_passed [OF v] ar show ?thesis by simp
qed

lemma digit_of_nth: "n < 10 \<Longrightarrow> digit_of (''0123456789'' ! n) = n"
proof -
  assume "n < 10"
  then have "n \<in> set [0..<10]" by simp
  moreover have "list_all (\<lambda>k. digit_of (''0123456789'' ! k) = k) [0..<10]" by code_simp
  ultimately show ?thesis unfolding list_all_iff by blast
qed

lemma digits_value_snoc: "digits_value (s @ [c]) = 10 * digits_value s + digit_of c"
  by (simp add: digits_value_def)

lemma digits_value_String_of_nat: "digits_value (String_of_nat n) = n"
proof (induction n rule: String_of_nat.induct)
  case (1 n)
  show ?case
  proof (cases "n < 10")
    case True
    then show ?thesis
      by (subst String_of_nat.simps) (simp add: digits_value_def digit_of_nth)
  next
    case False
    then have "digits_value (String_of_nat n)
                 = 10 * digits_value (String_of_nat (n div 10)) + digit_of (''0123456789'' ! (n mod 10))"
      by (subst String_of_nat.simps) (simp add: digits_value_snoc)
    also have "\<dots> = 10 * (n div 10) + n mod 10"
      using "1.IH" [OF False] by (simp add: digit_of_nth)
    finally show ?thesis by simp
  qed
qed

lemma digits_value_zeros: "foldl (\<lambda>a c. 10 * a + digit_of c) 0 (replicate k (CHR ''0'')) = 0"
  by (induction k) (simp_all add: digit_of_def)

lemma digits_value_padStart: "digits_value (padStart s k (CHR ''0'')) = digits_value s"
  by (simp add: padStart_def digits_value_def digits_value_zeros)

lemma member_label_inj: "member_label i = member_label j \<Longrightarrow> i = j"
proof -
  assume "member_label i = member_label j"
  then have "padStart (String_of_nat (i + 1)) 4 (CHR ''0'') = padStart (String_of_nat (j + 1)) 4 (CHR ''0'')"
    by (simp add: member_label_def)
  then have "digits_value (padStart (String_of_nat (i + 1)) 4 (CHR ''0''))
             = digits_value (padStart (String_of_nat (j + 1)) 4 (CHR ''0''))" by simp
  then show "i = j" by (simp add: digits_value_padStart digits_value_String_of_nat)
qed

lemma distinct_member_labels: "distinct (map member_label [0..<k])"
  by (simp add: distinct_map inj_on_def member_label_inj)

subsection \<open>Roll-calls as association lists\<close>

lemma keys_update: "fst ` set (AList.update k v al) = insert k (fst ` set al)"
  by (simp add: dom_update)

lemma record_matches_keys:
  "fst ` set results \<subseteq> fst ` set (record_matches matches results)
   \<and> (distinct (map fst results) \<longrightarrow> distinct (map fst (record_matches matches results)))"
  unfolding record_matches_def
proof (induction matches arbitrary: results)
  case Nil
  then show ?case by simp
next
  case (Cons p ps)
  obtain i v where p: "p = (i, v)" by (cases p)
  show ?case
    using Cons.IH [of "AList.update i (if v then Yes else No) results"]
    by (auto simp: p keys_update distinct_update)
qed

lemma abstain_chunk_keys:
  "fst ` set (abstain_chunk chunk results) = fst ` set results \<union> member_id ` set chunk
   \<and> (distinct (map fst results) \<longrightarrow> distinct (map fst (abstain_chunk chunk results)))"
  unfolding abstain_chunk_def
proof (induction chunk arbitrary: results)
  case Nil
  then show ?case by simp
next
  case (Cons m ms)
  show ?case
    using Cons.IH [of "AList.update (member_id m) Abstain results"]
    by (auto simp: keys_update distinct_update)
qed

lemma fallback_loop_keys:
  assumes "fallback_loop e chunk results w = (results', w')"
  shows "fst ` set results' = fst ` set results \<union> member_id ` set chunk
       \<and> (distinct (map fst results) \<longrightarrow> distinct (map fst results'))"
  using assms
proof (induction chunk arbitrary: results w)
  case Nil
  then show ?case by simp
next
  case (Cons m ms)
  show ?case
  proof (cases "map_of results (member_id m)")
    case (Some b)
    from map_of_SomeD [OF Some] have k: "member_id m \<in> fst ` set results" by force
    from Cons.prems Some have "fallback_loop e ms results w = (results', w')" by simp
    from Cons.IH [OF this] k show ?thesis by auto
  next
    case None
    obtain x w1 where x: "Math_random e w = (x, w1)" by (cases "Math_random e w")
    let ?r = "AList.update (member_id m) (if x < (ideology m + 1) / 2 then Yes else No) results"
    from Cons.prems None x have "fallback_loop e ms ?r w1 = (results', w')" by (simp add: Let_def)
    from Cons.IH [OF this] show ?thesis by (auto simp: keys_update distinct_update)
  qed
qed

lemma batchVote_loop_keys:
  assumes "batchVote_loop e ms i results w = (results', w')"
    and "distinct (map fst results)"
    and "member_id ` set (take i ms) \<subseteq> fst ` set results"
  shows "distinct (map fst results') \<and> member_id ` set ms \<subseteq> fst ` set results'"
  using assms
proof (induction e ms i results w rule: batchVote_loop.induct)
  case (1 e ms i results w)
  show ?case
  proof (cases "i < length ms")
    case False
    then have "results' = results" and "take i ms = ms"
      using "1.prems"(1) by (simp_all add: batchVote_loop.simps)
    then show ?thesis using "1.prems" by simp
  next
    case True
    let ?chunk = "take 10 (drop i ms)"
    have "take (i + 10) ms = take i ms @ ?chunk" by (simp add: take_add)
    then have tk: "member_id ` set (take (i + 10) ms)
                     = member_id ` set (take i ms) \<union> member_id ` set ?chunk"
      by (simp add: image_Un)
    obtain c w1 where cc: "chat_create e w = (c, w1)" by (cases "chat_create e w")
    show ?thesis
    proof (cases c)
      case Throws
      let ?r = "abstain_chunk ?chunk results"
      have run: "batchVote_loop e ms (i + 10) ?r w1 = (results', w')"
        using "1.prems"(1) True cc Throws by (subst (asm) batchVote_loop.simps) (simp add: Let_def)
      have d: "distinct (map fst ?r)" using abstain_chunk_keys [of ?chunk results] "1.prems"(2) by blast
      have ak: "fst ` set ?r = fst ` set results \<union> member_id ` set ?chunk"
        using abstain_chunk_keys [of ?chunk results] by blast
      have a: "member_id ` set (take i ms) \<subseteq> fst ` set ?r"
        using "1.prems"(3) unfolding ak by (rule le_supI1)
      have c: "member_id ` set ?chunk \<subseteq> fst ` set ?r" unfolding ak by (rule Un_upper2)
      have k: "member_id ` set (take (i + 10) ms) \<subseteq> fst ` set ?r"
        unfolding tk using a c by (rule Un_least)
      from "1.IH"(1) [OF True refl cc [symmetric] Throws run d k] show ?thesis .
    next
      case (Content ctn)
      let ?r0 = "record_matches (scan_votes (or_default ctn [])) results"
      obtain r1 w2 where fb: "fallback_loop e ?chunk ?r0 w1 = (r1, w2)"
        by (cases "fallback_loop e ?chunk ?r0 w1")
      have run: "batchVote_loop e ms (i + 10) r1 w2 = (results', w')"
        using "1.prems"(1) True cc Content fb by (subst (asm) batchVote_loop.simps) (simp add: Let_def)
      note rm = record_matches_keys [of results "scan_votes (or_default ctn [])"]
      note fk = fallback_loop_keys [OF fb]
      have d: "distinct (map fst r1)" using rm fk "1.prems"(2) by blast
      have rmk: "fst ` set results \<subseteq> fst ` set ?r0" using rm by blast
      have fkk: "fst ` set r1 = fst ` set ?r0 \<union> member_id ` set ?chunk" using fk by blast
      have a: "member_id ` set (take i ms) \<subseteq> fst ` set ?r0"
        using "1.prems"(3) rmk by (rule subset_trans)
      have b: "fst ` set ?r0 \<subseteq> fst ` set r1" unfolding fkk by (rule Un_upper1)
      have c: "member_id ` set ?chunk \<subseteq> fst ` set r1" unfolding fkk by (rule Un_upper2)
      have k: "member_id ` set (take (i + 10) ms) \<subseteq> fst ` set r1"
        unfolding tk using subset_trans [OF a b] c by (rule Un_least)
      from "1.IH"(2) [OF True refl cc [symmetric] Content fb [symmetric] run d k] show ?thesis .
    qed
  qed
qed

lemma chunk_votes_ids:
  "chunk_votes e chunk w = (rs, w') \<Longrightarrow> map fst rs = map member_id chunk"
proof (induction chunk arbitrary: rs w w')
  case Nil
  then show ?case by simp
next
  case (Cons m ms)
  obtain c w1 where cc: "chat_create e w = (c, w1)" by (cases "chat_create e w")
  obtain rs1 w2 where r: "chunk_votes e ms w1 = (rs1, w2)" by (cases "chunk_votes e ms w1")
  from Cons.prems cc r have "\<exists>v. rs = (member_id m, v) # rs1"
    by (cases c) (auto simp: Let_def)
  then show ?case using Cons.IH [OF r] by auto
qed

lemma record_results_keys:
  "fst ` set (record_results rs results) = fst ` set results \<union> fst ` set rs
   \<and> (distinct (map fst results) \<longrightarrow> distinct (map fst (record_results rs results)))"
  unfolding record_results_def
proof (induction rs arbitrary: results)
  case Nil
  then show ?case by simp
next
  case (Cons p ps)
  obtain i v where p: "p = (i, v)" by (cases p)
  show ?case
    using Cons.IH [of "AList.update i v results"]
    by (auto simp: p keys_update distinct_update)
qed

lemma batchVote_single_loop_keys:
  assumes "batchVote_single_loop e ms stp i results w = (results', w')"
    and "distinct (map fst results)"
    and "fst ` set results = member_id ` set (take i ms)"
    and "0 < stp"
  shows "distinct (map fst results') \<and> fst ` set results' = member_id ` set ms"
  using assms
proof (induction e ms stp i results w rule: batchVote_single_loop.induct)
  case (1 e ms stp i results w)
  show ?case
  proof (cases "i < length ms")
    case False
    then have "results' = results" and "take i ms = ms"
      using "1.prems"(1) by (simp_all add: batchVote_single_loop.simps)
    then show ?thesis using "1.prems" by simp
  next
    case True
    let ?chunk = "take stp (drop i ms)"
    have "take (i + stp) ms = take i ms @ ?chunk" by (simp add: take_add)
    then have tk: "member_id ` set (take (i + stp) ms)
                     = member_id ` set (take i ms) \<union> member_id ` set ?chunk"
      by (simp add: image_Un)
    obtain rs w1 where cv: "chunk_votes e ?chunk w = (rs, w1)" by (cases "chunk_votes e ?chunk w")
    have g: "i < length ms \<and> 0 < stp" using True "1.prems"(4) by simp
    let ?r = "record_results rs results"
    have run: "batchVote_single_loop e ms stp (i + stp) ?r w1 = (results', w')"
      using "1.prems"(1) g cv by (subst (asm) batchVote_single_loop.simps) simp
    have "map fst rs = map member_id ?chunk" using cv by (rule chunk_votes_ids)
    then have "set (map fst rs) = set (map member_id ?chunk)" by simp
    then have ids: "fst ` set rs = member_id ` set ?chunk" by simp
    have d: "distinct (map fst ?r)" using record_results_keys [of rs results] "1.prems"(2) by blast
    have "fst ` set ?r = fst ` set results \<union> fst ` set rs"
      using record_results_keys [of rs results] by blast
    then have k: "fst ` set ?r = member_id ` set (take (i + stp) ms)"
      unfolding tk ids "1.prems"(3) .
    from "1.IH" [OF g cv [symmetric] run d k "1.prems"(4)] show ?thesis .
  qed
qed

lemma batchVote_keys:
  assumes "batchVote rv e b ms pl w = (votes, w')"
  shows "distinct (map fst votes) \<and> member_id ` set ms \<subseteq> fst ` set votes
       \<and> (rv = Single \<longrightarrow> fst ` set votes = member_id ` set ms)"
proof (cases rv)
  case Batch
  then have "batchVote_loop e ms 0 [] w = (votes, w')"
    using assms by (simp add: batchVote_def batchVote_batch_def)
  from batchVote_loop_keys [OF this] Batch show ?thesis by simp
next
  case Single
  let ?stp = "case pl of None \<Rightarrow> 5 | Some k \<Rightarrow> if k = 0 then 5 else k"
  have pos: "0 < ?stp" by (simp split: option.splits)
  have "batchVote_single_loop e ms ?stp 0 [] w = (votes, w')"
    using assms Single by (simp add: batchVote_def batchVote_single_def)
  from batchVote_single_loop_keys [OF this _ _ pos] show ?thesis by simp
qed

subsection \<open>Counting\<close>

lemma tally_add_sum:
  "tally_add k v c = (y', n', a') \<Longrightarrow> y' + n' + a' = fst c + fst (snd c) + snd (snd c) + k"
  by (cases c) (auto split: if_splits)

lemma count_votes_sum_aux:
  "foldl (\<lambda>c (mid, v). tally_add 1 (Some v) c) c votes = (y', n', a')
     \<Longrightarrow> y' + n' + a' = fst c + fst (snd c) + snd (snd c) + int (length votes)"
proof (induction votes arbitrary: c)
  case Nil
  then show ?case by simp
next
  case (Cons p ps)
  obtain mid v where p: "p = (mid, v)" by (cases p)
  obtain y1 n1 a1 where t: "tally_add 1 (Some v) c = (y1, n1, a1)"
    by (metis prod_cases3)
  from Cons.prems have "foldl (\<lambda>c (mid, v). tally_add 1 (Some v) c) (y1, n1, a1) ps = (y', n', a')"
    by (simp add: p t)
  from Cons.IH [OF this] tally_add_sum [OF t] show ?case by simp
qed

lemma count_votes_sum:
  "count_votes votes = (y, n, a) \<Longrightarrow> y + n + a = int (length votes)"
  unfolding count_votes_def using count_votes_sum_aux [of "(0, 0, 0)" votes y n a] by simp

subsection \<open>Reconciliation\<close>

lemma tally_add_twice_sum:
  assumes "tally_add 1 f (tally_add (- 1) cur c) = (y', n', a')"
  shows "y' + n' + a' = fst c + fst (snd c) + snd (snd c)"
proof -
  obtain y1 n1 a1 where t: "tally_add (- 1) cur c = (y1, n1, a1)" by (metis prod_cases3)
  from tally_add_sum [OF t] tally_add_sum [OF assms [unfolded t]] show ?thesis by simp
qed

lemma length_update_present:
  "k \<in> fst ` set al \<Longrightarrow> length (AList.update k v al) = length al"
  by (induction al) auto

lemma reconcile_inv:
  assumes "reconcile sps (c, votes) = (c', votes')"
    and "member_id ` set sps \<subseteq> fst ` set votes"
  shows "fst c' + fst (snd c') + snd (snd c') = fst c + fst (snd c) + snd (snd c)
       \<and> length votes' = length votes \<and> fst ` set votes' = fst ` set votes
       \<and> (distinct (map fst votes) \<longrightarrow> distinct (map fst votes'))"
  using assms
proof (induction sps arbitrary: c votes)
  case Nil
  then show ?case by simp
next
  case (Cons s ss)
  have k: "member_id s \<in> fst ` set votes" and ks: "member_id ` set ss \<subseteq> fst ` set votes"
    using Cons.prems(2) by auto
  show ?case
  proof (cases "map_of votes (member_id s) = Some (forced_vote (stance s))")
    case True
    then have "reconcile ss (c, votes) = (c', votes')" using Cons.prems(1) by (simp add: Let_def)
    from Cons.IH [OF this ks] show ?thesis .
  next
    case False
    let ?c1 = "tally_add 1 (Some (forced_vote (stance s))) (tally_add (- 1) (map_of votes (member_id s)) c)"
    let ?v1 = "AList.update (member_id s) (forced_vote (stance s)) votes"
    have run: "reconcile ss (?c1, ?v1) = (c', votes')"
      using Cons.prems(1) False by (simp add: Let_def)
    have keys: "fst ` set ?v1 = fst ` set votes" using k by (auto simp: keys_update)
    have len: "length ?v1 = length votes" using k by (rule length_update_present)
    have dist: "distinct (map fst votes) \<longrightarrow> distinct (map fst ?v1)" by (simp add: distinct_update)
    obtain y1 n1 a1 where c1: "?c1 = (y1, n1, a1)" by (metis prod_cases3)
    have sum: "fst ?c1 + fst (snd ?c1) + snd (snd ?c1) = fst c + fst (snd c) + snd (snd c)"
      using tally_add_twice_sum [OF c1] unfolding c1 by simp
    have ks1: "member_id ` set ss \<subseteq> fst ` set ?v1" using ks keys by simp
    from Cons.IH [OF run ks1] sum keys len dist show ?thesis by simp
  qed
qed

lemma reconcile_other:
  "k \<notin> member_id ` set sps \<Longrightarrow> map_of (snd (reconcile sps (c, votes))) k = map_of votes k"
proof (induction sps arbitrary: c votes)
  case Nil
  then show ?case by simp
next
  case (Cons s ss)
  then have ne: "k \<noteq> member_id s" and rest: "k \<notin> member_id ` set ss" by auto
  show ?case
    using Cons.IH [OF rest] ne by (simp add: Let_def update_conv')
qed

lemma reconcile_forced:
  assumes "distinct (map member_id sps)" and "s \<in> set sps"
  shows "map_of (snd (reconcile sps (c, votes))) (member_id s) = Some (forced_vote (stance s))"
  using assms
proof (induction sps arbitrary: c votes)
  case Nil
  then show ?case by simp
next
  case (Cons t ts)
  have d: "distinct (map member_id ts)" and nt: "member_id t \<notin> member_id ` set ts"
    using Cons.prems(1) by auto
  show ?case
  proof (cases "s = t")
    case True
    show ?thesis
    proof (cases "map_of votes (member_id t) = Some (forced_vote (stance t))")
      case eq: True
      then show ?thesis using True reconcile_other [OF nt] by (simp add: Let_def)
    next
      case False
      then show ?thesis using True reconcile_other [OF nt] by (simp add: Let_def update_conv')
    qed
  next
    case False
    then have "s \<in> set ts" using Cons.prems(2) by simp
    from Cons.IH [OF d this] show ?thesis by (simp add: Let_def)
  qed
qed

lemma tally_votes_counts:
  assumes "member_id ` set sps \<subseteq> fst ` set votes"
  shows "yes (tally_votes votes sps) + no (tally_votes votes sps) + abstain (tally_votes votes sps)
           = int (length (rollCall (tally_votes votes sps)))
       \<and> length (rollCall (tally_votes votes sps)) = length votes
       \<and> fst ` set (rollCall (tally_votes votes sps)) = fst ` set votes
       \<and> (distinct (map fst votes) \<longrightarrow> distinct (map fst (rollCall (tally_votes votes sps))))"
proof -
  obtain y0 n0 a0 where c0: "count_votes votes = (y0, n0, a0)" by (metis prod_cases3)
  obtain c' votes' where r0: "reconcile sps ((y0, n0, a0), votes) = (c', votes')"
    by (cases "reconcile sps ((y0, n0, a0), votes)")
  obtain y n a where c': "c' = (y, n, a)" by (cases c')
  note r = r0 [unfolded c']
  from reconcile_inv [OF r assms] count_votes_sum [OF c0]
  show ?thesis by (simp add: tally_votes_def c0 r)
qed

lemma tally_votes_forced:
  assumes "distinct (map member_id sps)" and "s \<in> set sps"
  shows "map_of (rollCall (tally_votes votes sps)) (member_id s) = Some (forced_vote (stance s))"
proof -
  have "rollCall (tally_votes votes sps) = snd (reconcile sps (count_votes votes, votes))"
    by (simp add: tally_votes_def split: prod.splits)
  then show ?thesis using reconcile_forced [OF assms] by simp
qed

subsection \<open>The roll-call of a round\<close>

lemma speeches_from_members:
  assumes "speeches_loop rv e llm (pick_speakers ms) [] w = Inr (sps, w1)"
  shows "ms \<noteq> [] \<and> member_id ` set sps \<subseteq> member_id ` set ms"
proof -
  have ne: "ms \<noteq> []"
  proof
    assume "ms = []"
    then have "pick_speakers ms = [None, None, None, None, None]"
      by (simp add: pick_speakers_def js_index_def)
    then show False using assms by simp
  qed
  from pick_speakers_defined [OF ne] obtain xs where
    xs: "pick_speakers ms = map Some xs" and sub: "set xs \<subseteq> set ms" by blast
  from speeches_loop_ids [OF assms [unfolded xs]] have "map member_id sps = map member_id xs" by simp
  then have "set (map member_id sps) = set (map member_id xs)" by simp
  then have "member_id ` set sps = member_id ` set xs" by simp
  then show ?thesis using ne sub by blast
qed

lemma client_round_rollcall:
  assumes "client_round rv e True pl ms n R r st = Inr (st', stop)"
  shows "distinct (map fst (rollCall (vote (last (allRounds st')))))
       \<and> member_id ` set ms \<subseteq> fst ` set (rollCall (vote (last (allRounds st'))))
       \<and> yes (vote (last (allRounds st'))) + no (vote (last (allRounds st')))
           + abstain (vote (last (allRounds st')))
           = int (length (rollCall (vote (last (allRounds st')))))
       \<and> (rv = Single \<longrightarrow> fst ` set (rollCall (vote (last (allRounds st')))) = member_id ` set ms)"
proof -
  from client_round_shape [OF assms] obtain sps w1 voteRes w2 am where
    sp: "speeches_loop rv e True (pick_speakers ms) [] (run_world st) = Inr (sps, w1)"
    and v: "vote_phase rv e True pl (currentBill st) ms n sps w1 = (voteRes, w2)"
    and ar: "allRounds st' = allRounds st @ [\<lparr>round_index = r, speeches = sps, vote = voteRes, amendment = am\<rparr>]"
    by blast
  obtain votes w3 where bv: "batchVote rv e (currentBill st) ms pl w1 = (votes, w3)"
    by (cases "batchVote rv e (currentBill st) ms pl w1")
  have vr: "voteRes = tally_votes votes sps" using v bv by (simp add: vote_phase_def)
  note bk = batchVote_keys [OF bv]
  have sub: "member_id ` set sps \<subseteq> fst ` set votes"
    using speeches_from_members [OF sp, THEN conjunct2] bk [THEN conjunct2, THEN conjunct1]
    by (rule subset_trans)
  note tc = tally_votes_counts [OF sub]
  have l: "vote (last (allRounds st')) = tally_votes votes sps" using ar vr by simp
  note t3 = tc [THEN conjunct1]
  note k = tc [THEN conjunct2, THEN conjunct2, THEN conjunct1]
  have t1: "distinct (map fst (rollCall (tally_votes votes sps)))"
    using tc [THEN conjunct2, THEN conjunct2, THEN conjunct2] bk [THEN conjunct1] by (rule mp)
  have t2: "member_id ` set ms \<subseteq> fst ` set (rollCall (tally_votes votes sps))"
    unfolding k by (rule bk [THEN conjunct2, THEN conjunct1])
  have t4: "rv = Single \<longrightarrow> fst ` set (rollCall (tally_votes votes sps)) = member_id ` set ms"
    unfolding k by (rule bk [THEN conjunct2, THEN conjunct2])
  show ?thesis unfolding l by (intro conjI) (rule t1 t2 t3 t4)+
qed

lemma sorted_members_distinct:
  assumes "distinct (map member_id ms)"
  shows "distinct (map member_id (sort_key ideology ms))"
proof -
  from assms have "distinct ms" and "inj_on member_id (set ms)" by (simp_all add: distinct_map)
  then show ?thesis by (simp add: distinct_map)
qed

lemma pick_speakers_distinct:
  assumes "distinct (map member_id ms)" and "5 \<le> length ms"
  shows "\<exists>xs. pick_speakers ms = map Some xs \<and> distinct (map member_id xs)"
proof -
  define sorted where "sorted = sort_key ideology ms"
  define ids where "ids = map member_id sorted"
  define len where "len = int (length ms)"
  have len: "5 \<le> len" "int (length sorted) = len" "length ids = length ms"
    using assms(2) by (simp_all add: len_def sorted_def ids_def)
  have d: "distinct ids" unfolding ids_def sorted_def using assms(1) by (rule sorted_members_distinct)
  have ix: "js_index sorted i = Some (sorted ! nat i) \<and> member_id (sorted ! nat i) = ids ! nat i"
    if "0 \<le> i" "i < len" for i
    using that len by (simp add: js_index_def ids_def)
  have b: "(0::int) \<le> 0" "0 < len" "0 \<le> len div 4" "len div 4 < len" "0 \<le> len div 2" "len div 2 < len"
    "0 \<le> (3 * len) div 4" "(3 * len) div 4 < len" "0 \<le> len - 1" "len - 1 < len"
    using len(1) by simp_all
  have o1: "0 < len div 4" using len(1) by presburger
  have o2: "len div 4 < len div 2" using len(1) by presburger
  have o3: "len div 2 < (3 * len) div 4" using len(1) by presburger
  have o4: "(3 * len) div 4 < len - 1" using len(1) by presburger
  define i0 i1 i2 i3 i4 where "i0 = nat 0" and "i1 = nat (len div 4)" and "i2 = nat (len div 2)"
    and "i3 = nat ((3 * len) div 4)" and "i4 = nat (len - 1)"
  have li: "int (length ids) = len" by (simp add: ids_def sorted_def len_def)
  have chain: "i0 < i1" "i1 < i2" "i2 < i3" "i3 < i4" "i4 < length ids"
    unfolding i0_def i1_def i2_def i3_def i4_def using o1 o2 o3 o4 li len(1) by linarith+
  have p: "pick_speakers ms = map Some (map (\<lambda>i. sorted ! i) [i0, i1, i2, i3, i4])"
    using ix [OF b(1,2)] ix [OF b(3,4)] ix [OF b(5,6)] ix [OF b(7,8)] ix [OF b(9,10)]
    unfolding pick_speakers_eq Let_def sorted_def [symmetric] len_def [symmetric]
      i0_def i1_def i2_def i3_def i4_def by simp
  have m: "map member_id (map (\<lambda>i. sorted ! i) [i0, i1, i2, i3, i4]) = map (nth ids) [i0, i1, i2, i3, i4]"
    using ix [OF b(1,2)] ix [OF b(3,4)] ix [OF b(5,6)] ix [OF b(7,8)] ix [OF b(9,10)]
    unfolding i0_def i1_def i2_def i3_def i4_def by simp
  have dis: "distinct [i0, i1, i2, i3, i4]" using chain by simp
  have bound: "\<forall>i\<in>set [i0, i1, i2, i3, i4]. i < length ids" using chain by simp
  have inj: "inj_on (nth ids) (set [i0, i1, i2, i3, i4])" using d bound by (rule inj_on_nth)
  have "distinct (map (nth ids) [i0, i1, i2, i3, i4])"
    unfolding distinct_map using dis inj by (rule conjI)
  then have "distinct (map member_id (map (\<lambda>i. sorted ! i) [i0, i1, i2, i3, i4]))" unfolding m .
  then show ?thesis using p by blast
qed

lemma client_round_forced:
  assumes "client_round rv e True pl ms n R r st = Inr (st', stop)"
    and "distinct (map member_id ms)" and "5 \<le> length ms"
  shows "\<forall>s\<in>set (speeches (last (allRounds st'))).
           map_of (rollCall (vote (last (allRounds st')))) (member_id s) = Some (forced_vote (stance s))"
proof -
  from client_round_shape [OF assms(1)] obtain sps w1 voteRes w2 am where
    sp: "speeches_loop rv e True (pick_speakers ms) [] (run_world st) = Inr (sps, w1)"
    and v: "vote_phase rv e True pl (currentBill st) ms n sps w1 = (voteRes, w2)"
    and ar: "allRounds st' = allRounds st @ [\<lparr>round_index = r, speeches = sps, vote = voteRes, amendment = am\<rparr>]"
    by blast
  obtain votes w3 where bv: "batchVote rv e (currentBill st) ms pl w1 = (votes, w3)"
    by (cases "batchVote rv e (currentBill st) ms pl w1")
  have vr: "voteRes = tally_votes votes sps" using v bv by (simp add: vote_phase_def)
  from pick_speakers_distinct [OF assms(2,3)] obtain xs where
    xs: "pick_speakers ms = map Some xs" and dx: "distinct (map member_id xs)" by blast
  from speeches_loop_ids [OF sp [unfolded xs]] dx have ds: "distinct (map member_id sps)" by simp
  show ?thesis using ar vr tally_votes_forced [OF ds] by simp
qed

lemma client_members:
  assumes "runSimulationClient rv e g opts w = Inr res"
  shows "map member_id (members res) = map member_label [0..<nat (numMembers opts)]"
  using runSimulationClient_cases [OF assms] by auto


lemma forced_vote_cases:
  "forced_vote s = (case s of support \<Rightarrow> Yes | oppose \<Rightarrow> No | amend \<Rightarrow> Abstain)"
  by (cases s) (simp_all add: forced_vote_def)

lemma client_loop_summary:
  assumes "client_loop rv e llm pl ms n R r st = Inr st'"
  shows "\<exists>rs. allRounds st' = allRounds st @ rs
        \<and> summary (currentBill st') = summary (currentBill st)
            @ concat (map (\<lambda>rd. case amendment rd of None \<Rightarrow> []
                                 | Some t \<Rightarrow> amendment_suffix (round_index rd) t) rs)"
  using assms
proof (induction rv e llm pl ms n R r st arbitrary: st' rule: client_loop.induct)
  case (1 rv e llm pl ms n R r st)
  note run' = "1.prems"
  show ?case
  proof (cases "r < R")
    case False
    then have "st' = st" using run' by (simp add: client_loop.simps)
    then show ?thesis by simp
  next
    case True
    then obtain st1 stop where cr: "client_round rv e llm pl ms n R r st = Inr (st1, stop)"
      using run' by (subst (asm) client_loop.simps) (auto split: sum.splits)
    from client_round_shape [OF cr] obtain sps voteRes am where
      ar: "allRounds st1 = allRounds st @ [\<lparr>round_index = r, speeches = sps, vote = voteRes, amendment = am\<rparr>]"
      and cb: "currentBill st1 = (case am of None \<Rightarrow> currentBill st
          | Some a \<Rightarrow> (currentBill st)\<lparr>summary := summary (currentBill st) @ amendment_suffix r a\<rparr>)"
      by blast
    define rd where "rd = \<lparr>round_index = r, speeches = sps, vote = voteRes, amendment = am\<rparr>"
    let ?sfx = "\<lambda>rd. case amendment rd of None \<Rightarrow> [] | Some t \<Rightarrow> amendment_suffix (round_index rd) t"
    have s1: "summary (currentBill st1) = summary (currentBill st) @ ?sfx rd"
      using cb by (cases am) (simp_all add: rd_def)
    have a1: "allRounds st1 = allRounds st @ [rd]" using ar by (simp add: rd_def)
    show ?thesis
    proof (cases stop)
      case True
      then have "st' = st1" using run' \<open>r < R\<close> cr by (subst (asm) client_loop.simps) simp
      then have "allRounds st' = allRounds st @ [rd]
          \<and> summary (currentBill st') = summary (currentBill st) @ concat (map ?sfx [rd])"
        using a1 s1 by simp
      then show ?thesis by blast
    next
      case False
      then have rest: "client_loop rv e llm pl ms n R (r + 1) st1 = Inr st'"
        using run' \<open>r < R\<close> cr by (subst (asm) client_loop.simps) simp
      from "1.IH" [OF \<open>r < R\<close> cr refl False rest]
      obtain rs where "allRounds st' = allRounds st1 @ rs"
        and "summary (currentBill st') = summary (currentBill st1) @ concat (map ?sfx rs)"
        by blast
      then have "allRounds st' = allRounds st @ (rd # rs)
          \<and> summary (currentBill st') = summary (currentBill st) @ concat (map ?sfx (rd # rs))"
        using a1 s1 by simp
      then show ?thesis by blast
    qed
  qed
qed

lemma client_loop_continues:
  assumes "client_round rv e llm pl ms n R r st = Inr (st', False)" and "r < R"
  shows "client_loop rv e llm pl ms n R r st = client_loop rv e llm pl ms n R (r + 1) st'"
  using assms by (subst client_loop.simps) simp

section \<open>Lemmas about the seeded engine\<close>

lemma leaves_loop_always: "leaves_loop v"
  by (simp add: leaves_loop_def)

lemma Random_choice_weighted:
  assumes "items \<noteq> []"
  shows "\<exists>d rng'. Random_choice items (Some ws) rng = Inr (Some d, rng') \<and> d \<in> set items"
proof -
  obtain u s where n: "Random_next rng = (u, s)" by (cases "Random_next rng")
  have sc: "choice_scan xs ws' r acc = Some x \<Longrightarrow> x \<in> set xs" for xs :: "'a list" and ws' r acc x
    by (induction xs arbitrary: ws' acc) (auto simp: Let_def split: if_splits)
  show ?thesis
  proof (cases "choice_scan items ws (u * foldl (+) 0 ws) (Some 0)")
    case None
    then show ?thesis using assms n by (simp add: Random_choice_def Let_def)
  next
    case (Some x)
    then show ?thesis using assms n sc [OF Some] by (simp add: Random_choice_def Let_def)
  qed
qed

lemma sampleMembers_engine_loop_ok:
  assumes "districts \<noteq> []"
  shows "\<exists>ms' rng'. sampleMembers_engine_loop districts probs js ms rng = Inr (ms', rng')
           \<and> map member_id ms' = map member_id ms @ map member_label js"
  using assms
proof (induction js arbitrary: ms rng)
  case Nil
  then show ?case by simp
next
  case (Cons i js)
  from Random_choice_weighted [OF Cons.prems, of probs rng]
  obtain d rng1 where c: "Random_choice districts (Some probs) rng = Inr (Some d, rng1)" by blast
  obtain x rng2 where g: "Random_gauss (lean d) 0.35 rng1 = (x, rng2)"
    by (cases "Random_gauss (lean d) 0.35 rng1")
  have step: "sampleMembers_engine_loop districts probs (i # js) ms rng
                = sampleMembers_engine_loop districts probs js (ms @ [sampled_member i d x]) rng2"
    using c g by simp
  show ?case
    using Cons.IH [OF Cons.prems, of "ms @ [sampled_member i d x]" rng2] unfolding step
    by (simp add: sampled_member_def Let_def)
qed

lemma sampleMembers_engine_ok:
  assumes "districts \<noteq> []"
  shows "\<exists>ms rng'. sampleMembers_engine districts n rng = Inr (ms, rng')
           \<and> map member_id ms = map member_label [0..<nat n]"
  using sampleMembers_engine_loop_ok [OF assms, of _ "[0..<nat n]" "[]" rng]
  by (simp add: sampleMembers_engine_def Let_def)

lemma asyncVote_loop_counts:
  "asyncVote_loop e ms b u l (y, n, a) w = ((y', n', a'), w')
     \<Longrightarrow> y' + n' + a' = y + n + a + int (length ms) \<and> y \<le> y' \<and> n \<le> n' \<and> a \<le> a'"
proof (induction ms arbitrary: y n a w)
  case Nil
  then show ?case by simp
next
  case (Cons m ms)
  obtain d w1 where d: "decideVote e m b u l w = (d, w1)" by (cases "decideVote e m b u l w")
  consider (y) "vote' d = ''yes''" | (n) "vote' d \<noteq> ''yes''" "vote' d = ''no''"
    | (a) "vote' d \<noteq> ''yes''" "vote' d \<noteq> ''no''" by blast
  then show ?case
  proof cases
    case y
    then have "asyncVote_loop e ms b u l (y + 1, n, a) w1 = ((y', n', a'), w')"
      using Cons.prems d by simp
    from Cons.IH [OF this] show ?thesis by simp
  next
    case n
    then have "asyncVote_loop e ms b u l (y, n + 1, a) w1 = ((y', n', a'), w')"
      using Cons.prems d by simp
    from Cons.IH [OF this] show ?thesis by simp
  next
    case a
    then have "asyncVote_loop e ms b u l (y, n, a + 1) w1 = ((y', n', a'), w')"
      using Cons.prems d by simp
    from Cons.IH [OF this] show ?thesis by simp
  qed
qed

lemma asyncVote_shape:
  assumes "asyncVote e ms b u l thr w = (v, w')"
  shows "yes v + no v + abstain v = int (length ms) \<and> 0 \<le> yes v \<and> 0 \<le> no v \<and> 0 \<le> abstain v
       \<and> threshold v = thr
       \<and> passed v = (real_of_int (yes v) / real_of_int (max 1 (yes v + no v)) \<ge> thr)"
proof -
  obtain y n a w1 where l: "asyncVote_loop e ms b u l (0, 0, 0) w = ((y, n, a), w1)"
    by (metis prod_cases3 surj_pair)
  from asyncVote_loop_counts [OF l] assms l show ?thesis
    by (auto simp: asyncVote_def)
qed

lemma engine_round_shape:
  assumes "engine_round e ms b u l r w = Some (Inr (rd, w'))"
  shows "\<exists>spokes w1 sps w2 v.
           pickSpokespeople e ms 7 w = Some (Inr (spokes, w1))
         \<and> engine_speeches e spokes b u l [] w1 = (sps, w2)
         \<and> asyncVote e ms b u l 0.5 w2 = (v, w')
         \<and> rd = \<lparr>round_index = r, speeches = sps, vote = v\<rparr>"
proof -
  from assms obtain spokes w1 where p: "pickSpokespeople e ms 7 w = Some (Inr (spokes, w1))"
    by (auto simp: engine_round_def split: option.splits sum.splits)
  obtain sps w2 where s: "engine_speeches e spokes b u l [] w1 = (sps, w2)"
    by (cases "engine_speeches e spokes b u l [] w1")
  obtain v w3 where a: "asyncVote e ms b u l 0.5 w2 = (v, w3)"
    by (cases "asyncVote e ms b u l 0.5 w2")
  from assms p s a have "rd = \<lparr>round_index = r, speeches = sps, vote = v\<rparr>" "w' = w3"
    by (simp_all add: engine_round_def)
  then show ?thesis using p s a by blast
qed

lemma engine_loop_shape:
  assumes "engine_loop e ms b u l R r rs w = Some (Inr (rs', w'))"
  shows "(\<not> r < R \<and> rs' = rs)
       \<or> (r < R \<and> (\<exists>rd w1. engine_round e ms b u l r w = Some (Inr (rd, w1)) \<and> rs' = rs @ [rd]))"
  using assms
  by (subst (asm) engine_loop.simps)
     (auto simp: leaves_loop_always split: if_splits option.splits sum.splits)

lemma runSimulation_cases:
  assumes "runSimulation e ds n R b u l seed w = Some (Inr res)"
  shows "ds \<noteq> [] \<and> members res = n
       \<and> (\<exists>ms rng1. sampleMembers_engine ds n (Random_new seed (Date_now e)) = Inr (ms, rng1)
            \<and> map member_id ms = map member_label [0..<nat n]
            \<and> ((\<not> 0 < R \<and> rounds res = [] \<and> \<not> final_passed res)
               \<or> (0 < R \<and> (\<exists>rd w1. engine_round e ms b u l 0 w = Some (Inr (rd, w1))
                            \<and> rounds res = [rd] \<and> final_passed res = passed (vote rd)))))"
proof -
  have ne: "ds \<noteq> []" using assms by (auto simp: runSimulation_def Let_def split: if_splits)
  from sampleMembers_engine_ok [OF ne, of n "Random_new seed (Date_now e)"]
  obtain ms rng1 where sm: "sampleMembers_engine ds n (Random_new seed (Date_now e)) = Inr (ms, rng1)"
    and ids: "map member_id ms = map member_label [0..<nat n]" by blast
  from assms ne sm obtain rs w1 where lp: "engine_loop e ms b u l R 0 [] w = Some (Inr (rs, w1))"
    and res: "res = \<lparr>members = n, rounds = rs,
                      final_passed = (if rs \<noteq> [] then passed (vote (last rs)) else False)\<rparr>"
    by (auto simp: runSimulation_def Let_def split: option.splits sum.splits)
  from engine_loop_shape [OF lp] res sm ids ne show ?thesis by auto
qed

lemma pickSpokespeople_small:
  "length ms \<le> k \<Longrightarrow> pickSpokespeople e ms k w = Some (Inr (sort_key ideology ms, w))"
  by (simp add: pickSpokespeople_def)

lemma engine_round_small_ok:
  assumes "length ms \<le> 7"
  shows "\<exists>rd w'. engine_round e ms b u l r w = Some (Inr (rd, w'))"
  unfolding engine_round_def pickSpokespeople_small [OF assms]
  by (simp split: prod.splits)

lemma runSimulation_small_ok:
  assumes "ds \<noteq> []" and "n \<le> 7"
  shows "\<exists>res. runSimulation e ds n R b u l seed w = Some (Inr res)"
proof -
  from sampleMembers_engine_ok [OF assms(1), of n "Random_new seed (Date_now e)"]
  obtain ms rng1 where sm: "sampleMembers_engine ds n (Random_new seed (Date_now e)) = Inr (ms, rng1)"
    and ids: "map member_id ms = map member_label [0..<nat n]" by blast
  have "length (map member_id ms) = nat n" unfolding ids by simp
  then have "length ms \<le> 7" using assms(2) by simp
  from engine_round_small_ok [OF this, of e b u l 0 w]
  obtain rd w' where "engine_round e ms b u l 0 w = Some (Inr (rd, w'))" by blast
  then have "\<exists>x. engine_loop e ms b u l R 0 [] w = Some (Inr x)"
    by (subst engine_loop.simps) (simp add: leaves_loop_always)
  then show ?thesis using assms(1) sm
    by (auto simp: runSimulation_def Let_def)
qed

lemma asyncVote_single_heuristic:
  assumes "asyncVote e [m] b False l thr w = (v, w')"
  shows "yes v = (if math_random e (random_calls w) > 0.5 then 1 else 0)
       \<and> no v = (if math_random e (random_calls w) > 0.5 then 0 else 1)"
  using assms
  by (auto simp: asyncVote_def decideVote_def Math_random_def split: if_splits)

lemma single_member_run:
  assumes "runSimulation e ds 1 R b False l seed w = Some (Inr res)" and "0 < R"
    and "\<forall>k. math_random e k = c"
  shows "\<exists>rd. rounds res = [rd] \<and> final_passed res = passed (vote rd)
          \<and> passed (vote rd) = (c > 0.5)
          \<and> yes (vote rd) = (if c > 0.5 then 1 else 0)
          \<and> no (vote rd) = (if c > 0.5 then 0 else 1)"
proof -
  from runSimulation_cases [OF assms(1)] assms(2)
  obtain ms rd w1 where ids: "map member_id ms = map member_label [0..<nat 1]"
    and er: "engine_round e ms b False l 0 w = Some (Inr (rd, w1))"
    and res: "rounds res = [rd]" "final_passed res = passed (vote rd)"
    by blast
  have "length (map member_id ms) = 1" unfolding ids by simp
  then obtain m where ms: "ms = [m]" by (cases ms) auto
  from engine_round_shape [OF er] obtain w2 v where
    av: "asyncVote e [m] b False l 0.5 w2 = (v, w1)" and v: "vote rd = v"
    unfolding ms by auto
  from asyncVote_single_heuristic [OF av] asyncVote_shape [OF av] v res assms(3)
  show ?thesis by (intro exI [of _ rd]) auto
qed

lemma engine_one_round:
  assumes "runSimulation e ds n R b u l seed w = Some (Inr res)"
  shows "length (rounds res) \<le> 1"
  using runSimulation_cases [OF assms] by auto

lemma engine_round_passed:
  assumes "engine_round e ms b u l r w = Some (Inr (rd, w'))"
  shows "threshold (vote rd) = 0.5
       \<and> passed (vote rd) = (real_of_int (yes (vote rd)) / real_of_int (max 1 (yes (vote rd) + no (vote rd)))
                               \<ge> threshold (vote rd))
       \<and> 0 \<le> yes (vote rd) \<and> 0 \<le> no (vote rd)
       \<and> yes (vote rd) + no (vote rd) + abstain (vote rd) = int (length ms)"
proof -
  from engine_round_shape [OF assms] obtain w2 v where
    av: "asyncVote e ms b u l 0.5 w2 = (v, w')" and v: "vote rd = v" by auto
  note s = asyncVote_shape [OF av]
  have t: "threshold v = 0.5" using s by blast
  have p: "passed v = (real_of_int (yes v) / real_of_int (max 1 (yes v + no v)) \<ge> 0.5)"
    using s by blast
  have p': "passed v = (real_of_int (yes v) / real_of_int (max 1 (yes v + no v)) \<ge> threshold v)"
    unfolding t by (rule p)
  show ?thesis unfolding v using t p' s by blast
qed

section \<open>C10: the orchestrator without the engine\<close>

text \<open>
  C10.  In both revisions of \<^verbatim>\<open>runSimulationClient\<close>, with \<^verbatim>\<open>useLlm = false\<close>: every round
  of a completed run has the tally \<open>yes = floor (numMembers / 2)\<close>, \<open>no = floor (numMembers / 2)\<close>,
  \<open>abstain = 0\<close>, \<open>passed = false\<close> and an empty roll-call; the run has exactly \<^verbatim>\<open>rounds\<close>
  rounds and \<open>final_passed\<close> is false.  The run does complete when there is a district and
  at least one member.
\<close>

theorem client_no_llm:
  assumes "\<not> useLlm opts"
  shows "(\<forall>res. runSimulationClient rv e g opts w = Inr res \<longrightarrow>
            (\<forall>rd\<in>set (rounds res).
                yes (vote rd) = numMembers opts div 2 \<and> no (vote rd) = numMembers opts div 2
              \<and> abstain (vote rd) = 0 \<and> \<not> passed (vote rd) \<and> rollCall (vote rd) = [])
          \<and> length (rounds res) = nat (rounds_opt opts)
          \<and> \<not> final_passed res)
       \<and> (sample (districtSummary opts) \<noteq> [] \<and> 1 \<le> numMembers opts \<longrightarrow>
            (\<exists>res. runSimulationClient rv e g opts w = Inr res))"
proof (intro conjI allI impI)
  fix res
  assume run: "runSimulationClient rv e g opts w = Inr res"
  from runSimulationClient_cases [OF run] assms obtain ms w1 st where
    loop: "client_loop rv e False (parallelLimit opts) ms (numMembers opts) (rounds_opt opts) 0
          \<lparr>currentBill = bill opts, allRounds = [], run_notes = [], run_world = w1\<rparr> = Inr st"
    and res: "rounds res = allRounds st" "final_passed res = final_passed_of (allRounds st)"
    by auto
  from client_loop_trace [where Q = "\<lambda>rd. vote rd = placeholder_vote (numMembers opts)", OF _ loop]
    client_round_no_llm_vote
  obtain rs where rs: "allRounds st = rs"
    and lst: "rs \<noteq> [] \<longrightarrow> passed (vote (last rs)) \<or> length rs = nat (rounds_opt opts)"
    and ne: "0 < rounds_opt opts \<longrightarrow> rs \<noteq> []"
    and all: "\<forall>rd\<in>set rs. vote rd = placeholder_vote (numMembers opts)"
    by auto
  show "\<forall>rd\<in>set (rounds res).
                yes (vote rd) = numMembers opts div 2 \<and> no (vote rd) = numMembers opts div 2
              \<and> abstain (vote rd) = 0 \<and> \<not> passed (vote rd) \<and> rollCall (vote rd) = []"
    using all res rs by (simp add: placeholder_vote_def)
  show "length (rounds res) = nat (rounds_opt opts)"
  proof (cases "rs = []")
    case True
    then show ?thesis using ne res rs by auto
  next
    case False
    then have "last rs \<in> set rs" by simp
    then have "\<not> passed (vote (last rs))" using all by (simp add: placeholder_vote_def)
    then show ?thesis using lst False res rs by simp
  qed
  show "\<not> final_passed res"
  proof (cases "rs = []")
    case True
    then show ?thesis using res rs by (simp add: final_passed_of_Nil)
  next
    case False
    then have "last rs \<in> set rs" by simp
    then have "\<not> passed (vote (last rs))" using all by (simp add: placeholder_vote_def)
    then show ?thesis using res rs False by (simp add: final_passed_of_last)
  qed
next
  assume a: "sample (districtSummary opts) \<noteq> [] \<and> 1 \<le> numMembers opts"
  let ?sd = "case seed_opt opts of None \<Rightarrow> None | Some s \<Rightarrow> if s = 0 then None else Some s"
  from a sampleMembers_ok [of "sample (districtSummary opts)" e "numMembers opts" ?sd w]
  obtain ms w1 where sm: "sampleMembers e (filledDistricts (sample (districtSummary opts)) (numMembers opts))
        (numMembers opts) ?sd w = Inr (ms, w1)"
    and ids: "map member_id ms = map member_label [0..<nat (numMembers opts)]"
    by blast
  have "length (map member_id ms) = nat (numMembers opts)" unfolding ids by simp
  then have "ms \<noteq> []" using a by auto
  from client_loop_no_llm_ok [OF this, of False rv e "parallelLimit opts" "numMembers opts" "rounds_opt opts" 0
      "\<lparr>currentBill = bill opts, allRounds = [], run_notes = [], run_world = w1\<rparr>"]
  obtain st where "client_loop rv e False (parallelLimit opts) ms (numMembers opts) (rounds_opt opts) 0
          \<lparr>currentBill = bill opts, allRounds = [], run_notes = [], run_world = w1\<rparr> = Inr st"
    by auto
  then show "\<exists>res. runSimulationClient rv e g opts w = Inr res"
    using assms a sm by (simp add: runSimulationClient_def init_engine_no_llm)
qed

theorem client_no_llm_witness:
  "\<not> useLlm heuristic_opts
   \<and> (\<exists>res. runSimulationClient Single quiet_env no_engine heuristic_opts world0 = Inr res
          \<and> length (rounds res) = 2 \<and> \<not> final_passed res
          \<and> (\<forall>rd\<in>set (rounds res). yes (vote rd) = 1 \<and> no (vote rd) = 1 \<and> abstain (vote rd) = 0))"
proof -
  have h: "\<not> useLlm heuristic_opts" by (simp add: heuristic_opts_def)
  have s: "sample (districtSummary heuristic_opts) \<noteq> [] \<and> 1 \<le> numMembers heuristic_opts"
    by (simp add: heuristic_opts_def mock_summary_def loadMockDistricts_def)
  have n: "numMembers heuristic_opts div 2 = 1" "nat (rounds_opt heuristic_opts) = 2"
    by (simp_all add: heuristic_opts_def)
  from client_no_llm [OF h, of Single quiet_env no_engine world0] s n h
  show ?thesis by auto
qed

section \<open>C1: what the seed determines\<close>

text \<open>
  C1 asks that two runs with the same seed, the same districts, the same configuration
  and the heuristic (non-inference) decisions give the same result.  The seed reaches
  only the \<^verbatim>\<open>Random\<close> object of the engine's \<^verbatim>\<open>sampleMembers\<close>.  The heuristic vote of
  \<^verbatim>\<open>decideVote\<close>, the back-fill of \<^verbatim>\<open>pickSpokespeople\<close> and the client's \<^verbatim>\<open>sampleMembers\<close>
  (which receives the seed and does not read it) draw from \<^verbatim>\<open>Math.random\<close>.  Here are two
  runs of the engine with seed 42, one member and one round that differ in the outcome, and
  two runs of the client with seed 42 that differ in the ideologies of the sampled members;
  within each pair only the draws of \<^verbatim>\<open>Math.random\<close> differ.
\<close>

theorem seed_does_not_fix_the_result:
  "(\<exists>res1 res2.
      runSimulation high_draws loadMockDistricts 1 1 whales_bill False [] (Some 42) world0 = Some (Inr res1)
    \<and> runSimulation low_draws loadMockDistricts 1 1 whales_bill False [] (Some 42) world0 = Some (Inr res2)
    \<and> final_passed res1 \<and> \<not> final_passed res2)
   \<and> (case runSimulationClient Batch high_draws no_engine heuristic_opts world0 of
         Inl err \<Rightarrow> [] | Inr res \<Rightarrow> map ideology (members res)) = [0.76, - 0.44, 0.21]
   \<and> (case runSimulationClient Batch low_draws no_engine heuristic_opts world0 of
         Inl err \<Rightarrow> [] | Inr res \<Rightarrow> map ideology (members res)) = [0.44, - 0.76, - 0.11]"
proof (intro conjI)
  have ne: "loadMockDistricts \<noteq> []" by (simp add: loadMockDistricts_def)
  obtain res1 where r1:
    "runSimulation high_draws loadMockDistricts 1 1 whales_bill False [] (Some 42) world0 = Some (Inr res1)"
    using runSimulation_small_ok [OF ne, of 1] by force
  obtain res2 where r2:
    "runSimulation low_draws loadMockDistricts 1 1 whales_bill False [] (Some 42) world0 = Some (Inr res2)"
    using runSimulation_small_ok [OF ne, of 1] by force
  have "final_passed res1"
    using single_member_run [OF r1, of "0.9"] by (auto simp: high_draws_def quiet_env_def)
  moreover have "\<not> final_passed res2"
    using single_member_run [OF r2, of "0.1"] by (auto simp: low_draws_def quiet_env_def)
  ultimately show "\<exists>res1 res2.
      runSimulation high_draws loadMockDistricts 1 1 whales_bill False [] (Some 42) world0 = Some (Inr res1)
    \<and> runSimulation low_draws loadMockDistricts 1 1 whales_bill False [] (Some 42) world0 = Some (Inr res2)
    \<and> final_passed res1 \<and> \<not> final_passed res2"
    using r1 r2 by blast
next
  show "(case runSimulationClient Batch high_draws no_engine heuristic_opts world0 of
         Inl err \<Rightarrow> [] | Inr res \<Rightarrow> map ideology (members res)) = [0.76, - 0.44, 0.21]"
    by code_simp
next
  show "(case runSimulationClient Batch low_draws no_engine heuristic_opts world0 of
         Inl err \<Rightarrow> [] | Inr res \<Rightarrow> map ideology (members res)) = [0.44, - 0.76, - 0.11]"
    by code_simp
qed

section \<open>C2: amendments between rounds\<close>

text \<open>
  C2 (as amended).  In \<^verbatim>\<open>runSimulationClient\<close> with the engine in use:
  \<^item> when a round's tally is not passed and the round is not the last allowed one, and
    \<^verbatim>\<open>generateAmendment\<close> returns, the loop body does not break, the text
    \<^verbatim>\<open>"\n\nAMENDMENT (Round r+1): "\<close> followed by the returned amendment is appended to
    the bill's summary, the amendment is recorded on the round, and the rest of the run is
    the loop from round \<open>r + 1\<close> on the state that holds the amended bill;
  \<^item> in a completed run the summary of the bill the loop ends with is the summary of the
    bill given, followed by these texts for the amendments recorded on the rounds, in order;
    every round that failed and was not the last allowed one carries an amendment and is
    followed by a next round; with three rounds allowed, the first two failing and the
    third passing, the result has exactly three rounds, amendments on the first two, and
    \<open>final_passed\<close>.

  The engine's \<^verbatim>\<open>runSimulation\<close> leaves its loop after the first round whatever the tally,
  so its result never has more than one round.  (Without the engine the client goes on to
  the next round with no amendment, see C10.)
\<close>

theorem amendment_loop:
  "(conclude_round e True R r st sps voteRes w2 = Inr (st', stop) \<and> \<not> passed voteRes \<and> r < R - 1 \<longrightarrow>
      \<not> stop
      \<and> (\<exists>amendText w3.
            generateAmendment e (currentBill st) sps True w2 = Inr (amendText, w3)
          \<and> summary (currentBill st') = summary (currentBill st)
                @ [CHR 0x0A, CHR 0x0A] @ ''AMENDMENT (Round '' @ String_of_nat (nat (r + 1)) @ ''): ''
                @ amendText
          \<and> allRounds st' = allRounds st @
                [\<lparr>round_index = r, speeches = sps, vote = voteRes, amendment = Some amendText\<rparr>]))
   \<and> (client_round rv e True pl ms k R r s = Inr (s', stop')
        \<and> \<not> passed (vote (last (allRounds s'))) \<and> r < R - 1 \<longrightarrow>
        (\<exists>amendText.
            amendment (last (allRounds s')) = Some amendText
          \<and> summary (currentBill s') = summary (currentBill s)
                @ [CHR 0x0A, CHR 0x0A] @ ''AMENDMENT (Round '' @ String_of_nat (nat (r + 1)) @ ''): ''
                @ amendText)
      \<and> client_loop rv e True pl ms k R r s = client_loop rv e True pl ms k R (r + 1) s')
   \<and> (useLlm opts \<and> (llmConfig opts \<noteq> None \<or> loadedEngine g)
        \<and> runSimulationClient rv e g opts w = Inr res \<longrightarrow>
        (\<exists>w1 fin.
            client_loop rv e True (parallelLimit opts) (members res) (numMembers opts) (rounds_opt opts) 0
              \<lparr>currentBill = bill opts, allRounds = [], run_notes = [], run_world = w1\<rparr> = Inr fin
          \<and> allRounds fin = rounds res
          \<and> summary (currentBill fin) = summary (bill opts)
                @ concat (map (\<lambda>rd. case amendment rd of None \<Rightarrow> []
                     | Some amendText \<Rightarrow>
                         [CHR 0x0A, CHR 0x0A] @ ''AMENDMENT (Round ''
                         @ String_of_nat (nat (round_index rd + 1)) @ ''): '' @ amendText)
                   (rounds res)))
      \<and> (\<forall>i<length (rounds res).
            \<not> passed (vote (rounds res ! i)) \<and> int i < rounds_opt opts - 1 \<longrightarrow>
            amendment (rounds res ! i) \<noteq> None \<and> Suc i < length (rounds res))
      \<and> (rounds_opt opts = 3 \<and> (\<forall>rd\<in>set (rounds res). passed (vote rd) \<longleftrightarrow> round_index rd = 2) \<longrightarrow>
            length (rounds res) = 3 \<and> amendment (rounds res ! 0) \<noteq> None
          \<and> amendment (rounds res ! 1) \<noteq> None \<and> final_passed res))
   \<and> (runSimulation e' ds n R' b u l seed w' = Some (Inr res') \<longrightarrow> length (rounds res') \<le> 1)"
proof (intro conjI impI)
  assume a: "conclude_round e True R r st sps voteRes w2 = Inr (st', stop) \<and> \<not> passed voteRes \<and> r < R - 1"
  then have c: "conclude_round e True R r st sps voteRes w2 = Inr (st', stop)" by simp
  from conclude_round_shape [OF c] a obtain am where
    ar: "allRounds st' = allRounds st @ [\<lparr>round_index = r, speeches = sps, vote = voteRes, amendment = am\<rparr>]"
    and st: "stop = passed voteRes" and am: "am \<noteq> None"
    and cb: "currentBill st' = (case am of None \<Rightarrow> currentBill st
          | Some a \<Rightarrow> (currentBill st)\<lparr>summary := summary (currentBill st) @ amendment_suffix r a\<rparr>)"
    and ga: "\<forall>a. am = Some a \<longrightarrow> (\<exists>w3. generateAmendment e (currentBill st) sps True w2 = Inr (a, w3))"
    by auto
  from am obtain t where t: "am = Some t" by auto
  show "\<not> stop" using st a by simp
  show "\<exists>amendText w3.
            generateAmendment e (currentBill st) sps True w2 = Inr (amendText, w3)
          \<and> summary (currentBill st') = summary (currentBill st)
                @ [CHR 0x0A, CHR 0x0A] @ ''AMENDMENT (Round '' @ String_of_nat (nat (r + 1)) @ ''): ''
                @ amendText
          \<and> allRounds st' = allRounds st @
                [\<lparr>round_index = r, speeches = sps, vote = voteRes, amendment = Some amendText\<rparr>]"
    using ar cb ga t by (auto simp add: amendment_suffix_def)
next
  assume a: "client_round rv e True pl ms k R r s = Inr (s', stop')
        \<and> \<not> passed (vote (last (allRounds s'))) \<and> r < R - 1"
  then have c: "client_round rv e True pl ms k R r s = Inr (s', stop')" by simp
  from client_round_shape [OF c] obtain sps voteRes am where
    ar: "allRounds s' = allRounds s @ [\<lparr>round_index = r, speeches = sps, vote = voteRes, amendment = am\<rparr>]"
    and st: "stop' = passed voteRes"
    and am: "am \<noteq> None \<longleftrightarrow> True \<and> \<not> passed voteRes \<and> r < R - 1"
    and cb: "currentBill s' = (case am of None \<Rightarrow> currentBill s
          | Some a \<Rightarrow> (currentBill s)\<lparr>summary := summary (currentBill s) @ amendment_suffix r a\<rparr>)"
    by blast
  have np: "\<not> passed voteRes" using a ar by simp
  then obtain t where t: "am = Some t" using am a by auto
  show "\<exists>amendText.
            amendment (last (allRounds s')) = Some amendText
          \<and> summary (currentBill s') = summary (currentBill s)
                @ [CHR 0x0A, CHR 0x0A] @ ''AMENDMENT (Round '' @ String_of_nat (nat (r + 1)) @ ''): ''
                @ amendText"
    using ar cb t by (simp add: amendment_suffix_def)
  have "client_round rv e True pl ms k R r s = Inr (s', False)" using c st np by simp
  moreover have "r < R" using a by simp
  ultimately show "client_loop rv e True pl ms k R r s = client_loop rv e True pl ms k R (r + 1) s'"
    by (rule client_loop_continues)
next
  assume a: "useLlm opts \<and> (llmConfig opts \<noteq> None \<or> loadedEngine g)
        \<and> runSimulationClient rv e g opts w = Inr res"
  then have run: "runSimulationClient rv e g opts w = Inr res" by simp
  from runSimulationClient_cases [OF run] obtain g' w1 fin where
    g: "init_engine e g opts = Inr g'"
    and loop: "client_loop rv e (useLlm opts \<and> loadedEngine g') (parallelLimit opts) (members res)
          (numMembers opts) (rounds_opt opts) 0
          \<lparr>currentBill = bill opts, allRounds = [], run_notes = [], run_world = w1\<rparr> = Inr fin"
    and res: "rounds res = allRounds fin"
    by blast
  have llm: "(useLlm opts \<and> loadedEngine g') = True"
    using g a by (auto simp: init_engine_def split: option.splits if_splits)
  note loop' = loop [unfolded llm]
  from client_loop_summary [OF loop'] res
  have "summary (currentBill fin) = summary (bill opts)
                @ concat (map (\<lambda>rd. case amendment rd of None \<Rightarrow> []
                     | Some amendText \<Rightarrow> amendment_suffix (round_index rd) amendText)
                   (rounds res))"
    by auto
  then show "\<exists>w1 fin.
            client_loop rv e True (parallelLimit opts) (members res) (numMembers opts) (rounds_opt opts) 0
              \<lparr>currentBill = bill opts, allRounds = [], run_notes = [], run_world = w1\<rparr> = Inr fin
          \<and> allRounds fin = rounds res
          \<and> summary (currentBill fin) = summary (bill opts)
                @ concat (map (\<lambda>rd. case amendment rd of None \<Rightarrow> []
                     | Some amendText \<Rightarrow>
                         [CHR 0x0A, CHR 0x0A] @ ''AMENDMENT (Round ''
                         @ String_of_nat (nat (round_index rd + 1)) @ ''): '' @ amendText)
                   (rounds res))"
    using loop' res unfolding amendment_suffix_def by metis
  let ?rs = "rounds res"
  from client_run_trace [OF run, where Q = "\<lambda>rd. True"] a
  have ix: "\<forall>i<length ?rs. round_index (?rs ! i) = int i"
    and len: "length ?rs \<le> nat (rounds_opt opts)"
    and ne: "0 < rounds_opt opts \<longrightarrow> ?rs \<noteq> []"
    and lst: "?rs \<noteq> [] \<longrightarrow> passed (vote (last ?rs)) \<or> length ?rs = nat (rounds_opt opts)"
    and am: "\<forall>rd\<in>set ?rs. amendment rd \<noteq> None \<longleftrightarrow>
               \<not> passed (vote rd) \<and> round_index rd < rounds_opt opts - 1"
    and fp: "final_passed res = final_passed_of ?rs"
    by auto
  have key: "amendment (?rs ! i) \<noteq> None \<and> Suc i < length ?rs"
    if i: "i < length ?rs" and np: "\<not> passed (vote (?rs ! i))" and lt: "int i < rounds_opt opts - 1" for i
  proof
    have mem: "?rs ! i \<in> set ?rs" using i by simp
    show "amendment (?rs ! i) \<noteq> None" using am mem np lt ix i by auto
    show "Suc i < length ?rs"
    proof (rule ccontr)
      assume "\<not> Suc i < length ?rs"
      then have e: "i = length ?rs - 1" and n: "?rs \<noteq> []" using i by auto
      have last: "last ?rs = ?rs ! i" unfolding e using n by (rule last_conv_nth)
      have "\<not> passed (vote (last ?rs))" using np last by simp
      then have "length ?rs = nat (rounds_opt opts)" using lst n by blast
      then show False using lt e i by linarith
    qed
  qed
  show "\<forall>i<length ?rs.
            \<not> passed (vote (?rs ! i)) \<and> int i < rounds_opt opts - 1 \<longrightarrow>
            amendment (?rs ! i) \<noteq> None \<and> Suc i < length ?rs"
    using key by blast
  have scen: "length ?rs = 3 \<and> amendment (?rs ! 0) \<noteq> None \<and> amendment (?rs ! 1) \<noteq> None \<and> final_passed res"
    if s: "rounds_opt opts = 3 \<and> (\<forall>rd\<in>set ?rs. passed (vote rd) \<longleftrightarrow> round_index rd = 2)"
  proof -
    have R3: "rounds_opt opts = 3" and sc: "\<forall>rd\<in>set ?rs. passed (vote rd) \<longleftrightarrow> round_index rd = 2"
      using s by simp_all
    have p: "passed (vote (?rs ! i)) \<longleftrightarrow> i = 2" if "i < length ?rs" for i
    proof -
      have "?rs ! i \<in> set ?rs" using that by simp
      then have "passed (vote (?rs ! i)) \<longleftrightarrow> round_index (?rs ! i) = 2" using sc by blast
      moreover have "round_index (?rs ! i) = int i" using ix that by simp
      ultimately show ?thesis by simp
    qed
    have l0: "0 < length ?rs" using ne R3 by simp
    have "\<not> passed (vote (?rs ! 0))" using p [OF l0] by simp
    moreover have "int 0 < rounds_opt opts - 1" using R3 by simp
    ultimately have k0: "amendment (?rs ! 0) \<noteq> None" and l1: "1 < length ?rs"
      using key [OF l0] by simp_all
    have "\<not> passed (vote (?rs ! 1))" using p [OF l1] by simp
    moreover have "int 1 < rounds_opt opts - 1" using R3 by simp
    ultimately have k1: "amendment (?rs ! 1) \<noteq> None" and l2: "2 < length ?rs"
      using key [OF l1] by simp_all
    have l3: "length ?rs = 3" using l2 len R3 by simp
    have n: "?rs \<noteq> []" using l0 by auto
    have "last ?rs = ?rs ! (length ?rs - 1)" using n by (rule last_conv_nth)
    then have "last ?rs = ?rs ! 2" using l3 by simp
    moreover have "passed (vote (?rs ! 2))" using p [OF l2] by simp
    ultimately have "final_passed res" using fp n by (simp add: final_passed_of_last)
    then show ?thesis using k0 k1 l3 by simp
  qed
  show "length ?rs = 3"
    if "rounds_opt opts = 3 \<and> (\<forall>rd\<in>set ?rs. passed (vote rd) \<longleftrightarrow> round_index rd = 2)"
    using scen [OF that] by simp
  show "amendment (?rs ! 0) \<noteq> None"
    if "rounds_opt opts = 3 \<and> (\<forall>rd\<in>set ?rs. passed (vote rd) \<longleftrightarrow> round_index rd = 2)"
    using scen [OF that] by simp
  show "amendment (?rs ! 1) \<noteq> None"
    if "rounds_opt opts = 3 \<and> (\<forall>rd\<in>set ?rs. passed (vote rd) \<longleftrightarrow> round_index rd = 2)"
    using scen [OF that] by simp
  show "final_passed res"
    if "rounds_opt opts = 3 \<and> (\<forall>rd\<in>set ?rs. passed (vote rd) \<longleftrightarrow> round_index rd = 2)"
    using scen [OF that] by simp
next
  assume "runSimulation e' ds n R' b u l seed w' = Some (Inr res')"
  then show "length (rounds res') \<le> 1" by (rule engine_one_round)
qed

theorem amendment_loop_witness:
  "map amendment (rounds (projr (runSimulationClient Batch scenario_env no_engine scenario_opts world0)))
     = [Some ''Add a sunset clause.'', Some ''Fund it from existing budgets.'', None]
   \<and> final_passed (projr (runSimulationClient Batch scenario_env no_engine scenario_opts world0))
   \<and> (\<exists>w1 fin.
          client_loop Batch scenario_env True None (members (projr (runSimulationClient Batch scenario_env no_engine scenario_opts world0))) 3 3 0
            \<lparr>currentBill = whales_bill, allRounds = [], run_notes = [], run_world = w1\<rparr> = Inr fin
        \<and> allRounds fin = rounds (projr (runSimulationClient Batch scenario_env no_engine scenario_opts world0))
        \<and> summary (currentBill fin) =
            ''This bill bans all whale hunting and provides funding for marine sanctuaries.''
            @ [CHR 0x0A, CHR 0x0A] @ ''AMENDMENT (Round 1): Add a sunset clause.''
            @ [CHR 0x0A, CHR 0x0A] @ ''AMENDMENT (Round 2): Fund it from existing budgets.'')
   \<and> \<not> snd (projr (conclude_round scenario_env True 3 0
               \<lparr>currentBill = whales_bill, allRounds = [], run_notes = [],
                run_world = world0\<lparr>chat_calls := 11\<rparr>\<rparr> [] (placeholder_vote 3)
               (world0\<lparr>chat_calls := 11\<rparr>)))
   \<and> summary (currentBill (fst (projr (client_round Batch scenario_env True None (members (projr (runSimulationClient Batch scenario_env no_engine scenario_opts world0))) 3 3 0
               \<lparr>currentBill = whales_bill, allRounds = [], run_notes = [], run_world = world0\<rparr>))))
       = ''This bill bans all whale hunting and provides funding for marine sanctuaries.''
         @ [CHR 0x0A, CHR 0x0A] @ ''AMENDMENT (Round 1): Add a sunset clause.''
   \<and> client_loop Batch scenario_env True None (members (projr (runSimulationClient Batch scenario_env no_engine scenario_opts world0))) 3 3 0
         \<lparr>currentBill = whales_bill, allRounds = [], run_notes = [], run_world = world0\<rparr>
       = client_loop Batch scenario_env True None (members (projr (runSimulationClient Batch scenario_env no_engine scenario_opts world0))) 3 3 (0 + 1)
           (fst (projr (client_round Batch scenario_env True None (members (projr (runSimulationClient Batch scenario_env no_engine scenario_opts world0))) 3 3 0
               \<lparr>currentBill = whales_bill, allRounds = [], run_notes = [], run_world = world0\<rparr>)))
   \<and> (case runSimulation low_draws loadMockDistricts 1 3 whales_bill False [] (Some 42) world0 of
         Some (Inr res) \<Rightarrow> length (rounds res) \<le> 1 | _ \<Rightarrow> False)"
proof -
  let ?run = "runSimulationClient Batch scenario_env no_engine scenario_opts world0"
  let ?st = "\<lparr>currentBill = whales_bill, allRounds = [], run_notes = [],
              run_world = world0\<lparr>chat_calls := 11\<rparr>\<rparr>"
  let ?c = "conclude_round scenario_env True 3 0 ?st [] (placeholder_vote 3) (world0\<lparr>chat_calls := 11\<rparr>)"
  let ?s = "\<lparr>currentBill = whales_bill, allRounds = [], run_notes = [], run_world = world0\<rparr>"
  let ?cr = "client_round Batch scenario_env True None (members (projr ?run)) 3 3 0 ?s"
  have r: "?run = Inr (projr ?run)" by code_simp
  have h1: "useLlm scenario_opts \<and> (llmConfig scenario_opts \<noteq> None \<or> loadedEngine no_engine)"
    by (simp add: scenario_opts_def)
  have h2: "rounds_opt scenario_opts = 3
            \<and> (\<forall>rd\<in>set (rounds (projr ?run)). passed (vote rd) \<longleftrightarrow> round_index rd = 2)"
    by code_simp
  have c: "?c = Inr (fst (projr ?c), snd (projr ?c))" by code_simp
  have h3: "\<not> passed (placeholder_vote 3) \<and> (0::int) < 3 - 1" by (simp add: placeholder_vote_def)
  have cr: "?cr = Inr (fst (projr ?cr), snd (projr ?cr))" by code_simp
  have h4: "\<not> passed (vote (last (allRounds (fst (projr ?cr)))))" by code_simp
  have ne: "loadMockDistricts \<noteq> []" by (simp add: loadMockDistricts_def)
  obtain res' where e:
    "runSimulation low_draws loadMockDistricts 1 3 whales_bill False [] (Some 42) world0 = Some (Inr res')"
    using runSimulation_small_ok [OF ne, of 1] by force
  have o: "parallelLimit scenario_opts = None" "numMembers scenario_opts = 3"
    "bill scenario_opts = whales_bill"
    by (simp_all add: scenario_opts_def)
  have am: "map amendment (rounds (projr ?run))
     = [Some ''Add a sunset clause.'', Some ''Fund it from existing budgets.'', None]"
    by code_simp
  have t: "amendment (last (allRounds (fst (projr ?cr)))) = Some ''Add a sunset clause.''"
    by code_simp
  have sm: "summary whales_bill
      = ''This bill bans all whale hunting and provides funding for marine sanctuaries.''"
    by (simp add: whales_bill_def)
  have ix: "map round_index (rounds (projr ?run)) = [0, 1, 2]" by code_simp
  have n1: "String_of_nat (nat (0 + 1)) = ''1''" "String_of_nat (nat (1 + 1)) = ''2''" by code_simp+
  note T = amendment_loop [of scenario_env 3 0 ?st "[]" "placeholder_vote 3" "world0\<lparr>chat_calls := 11\<rparr>"
      "fst (projr ?c)" "snd (projr ?c)"
      Batch None "members (projr ?run)" 3 ?s "fst (projr ?cr)" "snd (projr ?cr)"
      scenario_opts no_engine world0 "projr ?run"
      low_draws loadMockDistricts 1 3 whales_bill False "[]" "Some 42" world0 res']
  have A: "\<not> snd (projr ?c)"
    using T [THEN conjunct1, THEN mp, OF conjI [OF c h3]] by (rule conjunct1)
  have h5: "(0::int) < 3 - 1" by simp
  note T2 = T [THEN conjunct2, THEN conjunct1, THEN mp, OF conjI [OF cr conjI [OF h4 h5]]]
  have B: "\<exists>amendText.
            amendment (last (allRounds (fst (projr ?cr)))) = Some amendText
          \<and> summary (currentBill (fst (projr ?cr))) = summary (currentBill ?s)
                @ [CHR 0x0A, CHR 0x0A] @ ''AMENDMENT (Round '' @ String_of_nat (nat (0 + 1)) @ ''): ''
                @ amendText"
    using T2 by (rule conjunct1)
  have C: "client_loop Batch scenario_env True None (members (projr ?run)) 3 3 0 ?s
           = client_loop Batch scenario_env True None (members (projr ?run)) 3 3 (0 + 1) (fst (projr ?cr))"
    using T2 by (rule conjunct2)
  note T3 = T [THEN conjunct2, THEN conjunct2, THEN conjunct1, THEN mp,
               OF conjI [OF h1 [THEN conjunct1] conjI [OF h1 [THEN conjunct2] r]]]
  have D: "\<exists>w1 fin.
            client_loop Batch scenario_env True (parallelLimit scenario_opts) (members (projr ?run))
              (numMembers scenario_opts) (rounds_opt scenario_opts) 0
              \<lparr>currentBill = bill scenario_opts, allRounds = [], run_notes = [], run_world = w1\<rparr> = Inr fin
          \<and> allRounds fin = rounds (projr ?run)
          \<and> summary (currentBill fin) = summary (bill scenario_opts)
                @ concat (map (\<lambda>rd. case amendment rd of None \<Rightarrow> []
                     | Some amendText \<Rightarrow>
                         [CHR 0x0A, CHR 0x0A] @ ''AMENDMENT (Round ''
                         @ String_of_nat (nat (round_index rd + 1)) @ ''): '' @ amendText)
                   (rounds (projr ?run)))"
    using T3 by (rule conjunct1)
  have E: "final_passed (projr ?run)"
    using T3 [THEN conjunct2, THEN conjunct2, THEN mp, OF h2] by blast
  have F: "length (rounds res') \<le> 1"
    using T [THEN conjunct2, THEN conjunct2, THEN conjunct2, THEN mp, OF e] .
  have sfx: "concat (map (\<lambda>rd. case amendment rd of None \<Rightarrow> []
                     | Some amendText \<Rightarrow>
                         [CHR 0x0A, CHR 0x0A] @ ''AMENDMENT (Round ''
                         @ String_of_nat (nat (round_index rd + 1)) @ ''): '' @ amendText)
                   (rounds (projr ?run)))
      = [CHR 0x0A, CHR 0x0A] @ ''AMENDMENT (Round 1): Add a sunset clause.''
        @ [CHR 0x0A, CHR 0x0A] @ ''AMENDMENT (Round 2): Fund it from existing budgets.''"
    by code_simp
  have B': "summary (currentBill (fst (projr ?cr)))
       = ''This bill bans all whale hunting and provides funding for marine sanctuaries.''
         @ [CHR 0x0A, CHR 0x0A] @ ''AMENDMENT (Round 1): Add a sunset clause.''"
    using B t n1 sm by auto
  have D': "\<exists>w1 fin.
          client_loop Batch scenario_env True None (members (projr ?run)) 3 3 0
            \<lparr>currentBill = whales_bill, allRounds = [], run_notes = [], run_world = w1\<rparr> = Inr fin
        \<and> allRounds fin = rounds (projr ?run)
        \<and> summary (currentBill fin) =
            ''This bill bans all whale hunting and provides funding for marine sanctuaries.''
            @ [CHR 0x0A, CHR 0x0A] @ ''AMENDMENT (Round 1): Add a sunset clause.''
            @ [CHR 0x0A, CHR 0x0A] @ ''AMENDMENT (Round 2): Fund it from existing budgets.''"
    using D unfolding sfx o sm h2 [THEN conjunct1] by simp
  show ?thesis using am E D' A B' C F e by simp
qed

text \<open>
  The claim as written fails on the engine: three rounds allowed, the first round fails,
  and the result holds that one round only.
\<close>

theorem engine_single_round_counterexample:
  "(case runSimulation low_draws loadMockDistricts 1 3 whales_bill False [] (Some 42) world0 of
      Some (Inr res) \<Rightarrow> map (\<lambda>rd. (round_index rd, passed (vote rd))) (rounds res)
    | _ \<Rightarrow> []) = [(0, False)]"
proof -
  have ne: "loadMockDistricts \<noteq> []" by (simp add: loadMockDistricts_def)
  obtain res where r:
    "runSimulation low_draws loadMockDistricts 1 3 whales_bill False [] (Some 42) world0 = Some (Inr res)"
    using runSimulation_small_ok [OF ne, of 1] by force
  have c: "\<forall>k. math_random low_draws k = 0.1" by (simp add: low_draws_def quiet_env_def)
  from single_member_run [OF r _ c] runSimulation_cases [OF r]
  have "map (\<lambda>rd. (round_index rd, passed (vote rd))) (rounds res) = [(0, False)]"
    by (auto dest!: engine_round_shape)
  then show ?thesis using r by simp
qed

section \<open>C3: a member who spoke votes as the speech said\<close>

text \<open>
  C3 (as amended).  In the client orchestrator with the engine in use and at least five
  members, in every executed round the roll-call entry of each member who gave a speech is
  the vote the stance of that speech maps to: support to yes, oppose to no, amend to
  abstain.
\<close>

theorem spoken_stance_is_cast_vote:
  "useLlm opts \<and> (llmConfig opts \<noteq> None \<or> loadedEngine g) \<and> 5 \<le> numMembers opts
   \<and> runSimulationClient rv e g opts w = Inr res \<longrightarrow>
     (\<forall>rd\<in>set (rounds res). \<forall>s\<in>set (speeches rd).
         map_of (rollCall (vote rd)) (member_id s)
           = Some (case stance s of support \<Rightarrow> Yes | oppose \<Rightarrow> No | amend \<Rightarrow> Abstain))"
proof (intro impI)
  assume a: "useLlm opts \<and> (llmConfig opts \<noteq> None \<or> loadedEngine g) \<and> 5 \<le> numMembers opts
   \<and> runSimulationClient rv e g opts w = Inr res"
  then have run: "runSimulationClient rv e g opts w = Inr res" by simp
  have llm: "(useLlm opts \<and> llmConfig opts \<noteq> None \<or> useLlm opts \<and> loadedEngine g) = True"
    using a by blast
  let ?Q = "\<lambda>rd. \<forall>s\<in>set (speeches rd).
              map_of (rollCall (vote rd)) (member_id s) = Some (forced_vote (stance s))"
  have step: "?Q (last (allRounds st'))"
    if i: "map member_id ms = map member_label [0..<nat (numMembers opts)]"
      and c: "client_round rv e (useLlm opts \<and> llmConfig opts \<noteq> None \<or> useLlm opts \<and> loadedEngine g)
                (parallelLimit opts) ms (numMembers opts) (rounds_opt opts) r st = Inr (st', stop)"
    for ms r st st' stop
  proof -
    have d: "distinct (map member_id ms)" unfolding i by (rule distinct_member_labels)
    have "length (map member_id ms) = nat (numMembers opts)" unfolding i by simp
    moreover from a have "5 \<le> numMembers opts" by simp
    ultimately have l: "5 \<le> length ms" by simp
    from client_round_forced [OF c [unfolded llm] d l] show ?thesis .
  qed
  from client_run_trace [OF run, where Q = ?Q] step have "\<forall>rd\<in>set (rounds res). ?Q rd" by blast
  then show "\<forall>rd\<in>set (rounds res). \<forall>s\<in>set (speeches rd).
         map_of (rollCall (vote rd)) (member_id s)
           = Some (case stance s of support \<Rightarrow> Yes | oppose \<Rightarrow> No | amend \<Rightarrow> Abstain)"
    unfolding forced_vote_cases .
qed

theorem spoken_stance_is_cast_vote_witness:
  "rounds (projr (runSimulationClient Batch scenario_env no_engine five_opts world0)) \<noteq> []
   \<and> list_all (\<lambda>rd. length (speeches rd) = 5
         \<and> list_all (\<lambda>s. map_of (rollCall (vote rd)) (member_id s)
               = Some (case stance s of support \<Rightarrow> Yes | oppose \<Rightarrow> No | amend \<Rightarrow> Abstain))
             (speeches rd))
       (rounds (projr (runSimulationClient Batch scenario_env no_engine five_opts world0)))"
proof -
  let ?run = "runSimulationClient Batch scenario_env no_engine five_opts world0"
  have r: "?run = Inr (projr ?run)" by code_simp
  have h: "useLlm five_opts \<and> (llmConfig five_opts \<noteq> None \<or> loadedEngine no_engine)
           \<and> 5 \<le> numMembers five_opts"
    by (simp add: five_opts_def scenario_opts_def)
  have n: "rounds (projr ?run) \<noteq> [] \<and> (\<forall>rd\<in>set (rounds (projr ?run)). length (speeches rd) = 5)"
    by code_simp
  from spoken_stance_is_cast_vote [of five_opts no_engine Batch scenario_env world0 "projr ?run"] r h n
  show ?thesis by (auto simp add: list_all_iff)
qed

text \<open>
  The claim as written fails in the client without the engine: the speeches of the round
  have stances, and the roll-call holds no entry for any speaker.
\<close>

theorem empty_roll_call_counterexample:
  "(case runSimulationClient Batch quiet_env no_engine (heuristic_opts\<lparr>rounds_opt := 1\<rparr>) world0 of
      Inl err \<Rightarrow> []
    | Inr res \<Rightarrow>
        map (\<lambda>rd. map (\<lambda>s. (member_id s, stance s, map_of (rollCall (vote rd)) (member_id s)))
                    (speeches rd))
          (rounds res))
   = [[(''M-0002'', oppose, None), (''M-0002'', oppose, None), (''M-0003'', support, None),
       (''M-0001'', support, None), (''M-0001'', support, None)]]"
  by code_simp

section \<open>C4: when a tally counts as passed\<close>

text \<open>
  How the two orchestrators compute \<open>passed\<close>.  The threshold of every tally is \<open>0.5\<close>
  and the abstentions do not enter the decision.  In the engine (\<^verbatim>\<open>asyncVote\<close>),
  \<open>passed\<close> is \<open>yes / max 1 (yes + no) \<ge> threshold\<close>, so a tally with equal non-zero yes
  and no counts is passed.  In the client orchestrator with the engine in use, \<open>passed\<close>
  is \<open>yes > (yes + no) * 0.5\<close>; without the engine it is false.
\<close>

lemma passed_rule:
  "(runSimulation e' ds n R b u l seed w' = Some (Inr res') \<longrightarrow>
      (\<forall>rd\<in>set (rounds res').
          threshold (vote rd) = 0.5
        \<and> passed (vote rd) =
            (real_of_int (yes (vote rd)) / real_of_int (max 1 (yes (vote rd) + no (vote rd)))
               \<ge> threshold (vote rd))
        \<and> (yes (vote rd) = no (vote rd) \<and> yes (vote rd) \<noteq> 0 \<longrightarrow> passed (vote rd))))
   \<and> (runSimulationClient rv e g opts w = Inr res \<longrightarrow>
      (\<forall>rd\<in>set (rounds res).
          threshold (vote rd) = 0.5
        \<and> passed (vote rd) =
            (useLlm opts \<and> (llmConfig opts \<noteq> None \<or> loadedEngine g)
             \<and> real_of_int (yes (vote rd)) > real_of_int (yes (vote rd) + no (vote rd)) * 0.5)))"
proof (intro conjI impI ballI)
  fix rd
  assume run: "runSimulation e' ds n R b u l seed w' = Some (Inr res')" and rd: "rd \<in> set (rounds res')"
  from runSimulation_cases [OF run] rd obtain ms w1 where
    er: "engine_round e' ms b u l 0 w' = Some (Inr (rd, w1))" by auto
  note p = engine_round_passed [OF er]
  show "threshold (vote rd) = 0.5" using p by simp
  show "passed (vote rd) =
            (real_of_int (yes (vote rd)) / real_of_int (max 1 (yes (vote rd) + no (vote rd)))
               \<ge> threshold (vote rd))" using p by simp
  show "passed (vote rd)" if t: "yes (vote rd) = no (vote rd) \<and> yes (vote rd) \<noteq> 0"
  proof -
    have pos: "0 < yes (vote rd)" using p t by linarith
    then have "max 1 (yes (vote rd) + no (vote rd)) = 2 * yes (vote rd)" using t by simp
    then have "real_of_int (yes (vote rd)) / real_of_int (max 1 (yes (vote rd) + no (vote rd))) = 1 / 2"
      using pos by simp
    then show ?thesis using p by simp
  qed
next
  fix rd
  assume run: "runSimulationClient rv e g opts w = Inr res" and rd: "rd \<in> set (rounds res)"
  let ?llm = "useLlm opts \<and> llmConfig opts \<noteq> None \<or> useLlm opts \<and> loadedEngine g"
  from client_run_trace [OF run, where Q = "\<lambda>rd. threshold (vote rd) = 0.5
       \<and> passed (vote rd) = (?llm \<and> real_of_int (yes (vote rd)) > real_of_int (yes (vote rd) + no (vote rd)) * 0.5)"]
    client_round_passed rd
  have q: "threshold (vote rd) = 0.5
       \<and> passed (vote rd) = (?llm \<and> real_of_int (yes (vote rd)) > real_of_int (yes (vote rd) + no (vote rd)) * 0.5)"
    by blast
  show "threshold (vote rd) = 0.5" using q by simp
  show "passed (vote rd) =
            (useLlm opts \<and> (llmConfig opts \<noteq> None \<or> loadedEngine g)
             \<and> real_of_int (yes (vote rd)) > real_of_int (yes (vote rd) + no (vote rd)) * 0.5)"
    using q by blast
qed

text \<open>
  C4.  The claim gives one rule for every round's tally,
  \<open>passed = (yes / max 1 (yes + no) \<ge> threshold)\<close> with threshold \<open>0.5\<close>, under which a
  tally with equal non-zero yes and no counts is passed.  The engine's \<^verbatim>\<open>asyncVote\<close>
  follows it: two members, one yes and one no, and the tally is passed.  The client
  orchestrator does not: in a run of two members whose roll-call is one yes and one no the
  tally records the threshold \<open>0.5\<close>, the claim's formula holds of its counts, and
  \<open>passed\<close> is false.
\<close>

theorem client_fails_a_tie:
  "(case runSimulationClient Batch tie_env no_engine tie_opts world0 of
      Inl err \<Rightarrow> []
    | Inr res \<Rightarrow>
        map (\<lambda>rd. (yes (vote rd), no (vote rd), abstain (vote rd), threshold (vote rd),
                   real_of_int (yes (vote rd)) / real_of_int (max 1 (yes (vote rd) + no (vote rd)))
                     \<ge> threshold (vote rd),
                   passed (vote rd)))
          (rounds res)) = [(1, 1, 0, 0.5, True, False)]
   \<and> (case fst (asyncVote split_draws [mockMember, mockMember\<lparr>member_id := ''M002''\<rparr>]
                  whales_bill False [] 0.5 world0) of
        v \<Rightarrow> (yes v, no v, abstain v, threshold v,
              real_of_int (yes v) / real_of_int (max 1 (yes v + no v)) \<ge> threshold v,
              passed v)) = (1, 1, 0, 0.5, True, True)"
proof -
  have "(case runSimulationClient Batch tie_env no_engine tie_opts world0 of
      Inl err \<Rightarrow> []
    | Inr res \<Rightarrow>
        map (\<lambda>rd. (yes (vote rd), no (vote rd), abstain (vote rd), threshold (vote rd),
                   real_of_int (yes (vote rd)) / real_of_int (max 1 (yes (vote rd) + no (vote rd)))
                     \<ge> threshold (vote rd),
                   passed (vote rd)))
          (rounds res)) = [(1, 1, 0, 0.5, True, False)]"
    by code_simp
  moreover have "(case fst (asyncVote split_draws [mockMember, mockMember\<lparr>member_id := ''M002''\<rparr>]
                  whales_bill False [] 0.5 world0) of
        v \<Rightarrow> (yes v, no v, abstain v, threshold v,
              real_of_int (yes v) / real_of_int (max 1 (yes v + no v)) \<ge> threshold v,
              passed v)) = (1, 1, 0, 0.5, True, True)"
    by (simp add: asyncVote_def decideVote_def Math_random_def split_draws_def quiet_env_def world0_def)
  ultimately show ?thesis by (rule conjI)
qed

section \<open>C5: the counts of a tally and the roll-call\<close>

text \<open>
  C5 (as amended).  In the engine, the counts of every round's tally add up to the number
  of sampled members (that tally has no roll-call).  In the client orchestrator with the
  engine in use, the members are as many as asked for, and in every round each member id has
  exactly one entry of the roll-call (the keys are pairwise different and include every
  member id); when the roll-call names members only, as it always does in the revision that
  asks once per member, its keys are exactly the member ids and the counts add up to the
  number of members.
\<close>

theorem tally_counts:
  "(runSimulation e' ds n R b u l seed w' = Some (Inr res') \<longrightarrow>
      (\<forall>rd\<in>set (rounds res').
          yes (vote rd) + no (vote rd) + abstain (vote rd) = int (nat (members res'))))
   \<and> (useLlm opts \<and> (llmConfig opts \<noteq> None \<or> loadedEngine g)
        \<and> runSimulationClient rv e g opts w = Inr res \<longrightarrow>
        length (members res) = nat (numMembers opts)
      \<and> distinct (map member_id (members res))
      \<and> (\<forall>rd\<in>set (rounds res).
            distinct (map fst (rollCall (vote rd)))
          \<and> member_id ` set (members res) \<subseteq> fst ` set (rollCall (vote rd))
          \<and> (rv = Single \<or> fst ` set (rollCall (vote rd)) \<subseteq> member_id ` set (members res) \<longrightarrow>
                 fst ` set (rollCall (vote rd)) = member_id ` set (members res)
               \<and> yes (vote rd) + no (vote rd) + abstain (vote rd) = int (length (members res)))))"
proof (intro conjI impI)
  show "\<forall>rd\<in>set (rounds res').
          yes (vote rd) + no (vote rd) + abstain (vote rd) = int (nat (members res'))"
    if run: "runSimulation e' ds n R b u l seed w' = Some (Inr res')"
  proof
    fix rd
    assume rd: "rd \<in> set (rounds res')"
    from runSimulation_cases [OF run] rd obtain ms w1 where
      ids: "map member_id ms = map member_label [0..<nat n]" and mem: "members res' = n"
      and er: "engine_round e' ms b u l 0 w' = Some (Inr (rd, w1))" by auto
    have "length (map member_id ms) = nat n" unfolding ids by simp
    then have "int (length ms) = int (nat n)" by simp
    then show "yes (vote rd) + no (vote rd) + abstain (vote rd) = int (nat (members res'))"
      using engine_round_passed [OF er] mem by simp
  qed
next
  assume a: "useLlm opts \<and> (llmConfig opts \<noteq> None \<or> loadedEngine g)
        \<and> runSimulationClient rv e g opts w = Inr res"
  then have run: "runSimulationClient rv e g opts w = Inr res" by simp
  have "length (map member_id (members res)) = nat (numMembers opts)"
    unfolding client_members [OF run] by simp
  then show "length (members res) = nat (numMembers opts)" by simp
next
  assume a: "useLlm opts \<and> (llmConfig opts \<noteq> None \<or> loadedEngine g)
        \<and> runSimulationClient rv e g opts w = Inr res"
  then have run: "runSimulationClient rv e g opts w = Inr res" by simp
  show "distinct (map member_id (members res))"
    unfolding client_members [OF run] by (rule distinct_member_labels)
next
  assume a: "useLlm opts \<and> (llmConfig opts \<noteq> None \<or> loadedEngine g)
        \<and> runSimulationClient rv e g opts w = Inr res"
  then have run: "runSimulationClient rv e g opts w = Inr res" by simp
  have llm: "(useLlm opts \<and> llmConfig opts \<noteq> None \<or> useLlm opts \<and> loadedEngine g) = True"
    using a by blast
  let ?ids = "set (map member_label [0..<nat (numMembers opts)])"
  let ?Q = "\<lambda>rd. distinct (map fst (rollCall (vote rd)))
        \<and> ?ids \<subseteq> fst ` set (rollCall (vote rd))
        \<and> yes (vote rd) + no (vote rd) + abstain (vote rd) = int (length (rollCall (vote rd)))
        \<and> (rv = Single \<longrightarrow> fst ` set (rollCall (vote rd)) = ?ids)"
  have step: "?Q (last (allRounds st'))"
    if i: "map member_id ms = map member_label [0..<nat (numMembers opts)]"
      and c: "client_round rv e (useLlm opts \<and> llmConfig opts \<noteq> None \<or> useLlm opts \<and> loadedEngine g)
                (parallelLimit opts) ms (numMembers opts) (rounds_opt opts) r st = Inr (st', stop)"
    for ms r st st' stop
  proof -
    have "set (map member_id ms) = ?ids" unfolding i ..
    then have s: "member_id ` set ms = ?ids" by simp
    from client_round_rollcall [OF c [unfolded llm]] show ?thesis unfolding s .
  qed
  from client_run_trace [OF run, where Q = ?Q] step have all: "\<forall>rd\<in>set (rounds res). ?Q rd" by blast
  have "set (map member_id (members res)) = ?ids" unfolding client_members [OF run] ..
  then have s: "member_id ` set (members res) = ?ids" by simp
  show "\<forall>rd\<in>set (rounds res).
            distinct (map fst (rollCall (vote rd)))
          \<and> member_id ` set (members res) \<subseteq> fst ` set (rollCall (vote rd))
          \<and> (rv = Single \<or> fst ` set (rollCall (vote rd)) \<subseteq> member_id ` set (members res) \<longrightarrow>
                 fst ` set (rollCall (vote rd)) = member_id ` set (members res)
               \<and> yes (vote rd) + no (vote rd) + abstain (vote rd) = int (length (members res)))"
  proof
    fix rd
    assume rd: "rd \<in> set (rounds res)"
    then have q: "?Q rd" using all by blast
    have d: "distinct (map fst (rollCall (vote rd)))" using q by blast
    have sub: "member_id ` set (members res) \<subseteq> fst ` set (rollCall (vote rd))"
      unfolding s using q by blast
    have cnt: "yes (vote rd) + no (vote rd) + abstain (vote rd) = int (length (rollCall (vote rd)))"
      using q by blast
    have fin: "fst ` set (rollCall (vote rd)) = member_id ` set (members res)
               \<and> yes (vote rd) + no (vote rd) + abstain (vote rd) = int (length (members res))"
      if h: "rv = Single \<or> fst ` set (rollCall (vote rd)) \<subseteq> member_id ` set (members res)"
    proof -
      have "fst ` set (rollCall (vote rd)) \<subseteq> member_id ` set (members res)"
        using h
      proof
        assume "rv = Single"
        then have "fst ` set (rollCall (vote rd)) = ?ids" using q by blast
        then show ?thesis unfolding s by simp
      next
        assume "fst ` set (rollCall (vote rd)) \<subseteq> member_id ` set (members res)"
        then show ?thesis .
      qed
      then have eq: "fst ` set (rollCall (vote rd)) = member_id ` set (members res)"
        using sub by (rule subset_antisym)
      then have k: "set (map fst (rollCall (vote rd))) = ?ids" unfolding s by simp
      have "length (rollCall (vote rd)) = length (map fst (rollCall (vote rd)))" by simp
      also have "\<dots> = card (set (map fst (rollCall (vote rd))))" using d by (rule distinct_card [symmetric])
      also have "\<dots> = card ?ids" unfolding k ..
      also have "\<dots> = length (map member_label [0..<nat (numMembers opts)])"
        using distinct_member_labels by (rule distinct_card)
      also have "\<dots> = length (map member_id (members res))" unfolding client_members [OF run] ..
      finally have "length (rollCall (vote rd)) = length (members res)" by simp
      then show ?thesis using cnt eq by simp
    qed
    show "distinct (map fst (rollCall (vote rd)))
          \<and> member_id ` set (members res) \<subseteq> fst ` set (rollCall (vote rd))
          \<and> (rv = Single \<or> fst ` set (rollCall (vote rd)) \<subseteq> member_id ` set (members res) \<longrightarrow>
                 fst ` set (rollCall (vote rd)) = member_id ` set (members res)
               \<and> yes (vote rd) + no (vote rd) + abstain (vote rd) = int (length (members res)))"
      using d sub fin by blast
  qed
qed

theorem tally_counts_witness:
  "(case runSimulation high_draws loadMockDistricts 1 1 whales_bill False [] (Some 42) world0 of
      Some (Inr res) \<Rightarrow>
        rounds res \<noteq> []
        \<and> list_all (\<lambda>rd. yes (vote rd) + no (vote rd) + abstain (vote rd) = 1) (rounds res)
    | _ \<Rightarrow> False)
   \<and> length (rounds (projr (runSimulationClient Single scenario_env no_engine scenario_opts world0))) = 3
   \<and> list_all (\<lambda>rd. yes (vote rd) + no (vote rd) + abstain (vote rd) = 3
         \<and> map fst (rollCall (vote rd)) = [''M-0001'', ''M-0002'', ''M-0003''])
       (rounds (projr (runSimulationClient Single scenario_env no_engine scenario_opts world0)))
   \<and> length (rounds (projr (runSimulationClient Batch scenario_env no_engine scenario_opts world0))) = 3
   \<and> list_all (\<lambda>rd. yes (vote rd) + no (vote rd) + abstain (vote rd) = 3
         \<and> map fst (rollCall (vote rd)) = [''M-0001'', ''M-0002'', ''M-0003''])
       (rounds (projr (runSimulationClient Batch scenario_env no_engine scenario_opts world0)))"
proof -
  let ?run = "runSimulationClient Single scenario_env no_engine scenario_opts world0"
  let ?runB = "runSimulationClient Batch scenario_env no_engine scenario_opts world0"
  have r: "?run = Inr (projr ?run)" by code_simp
  have rB: "?runB = Inr (projr ?runB)" by code_simp
  have h: "useLlm scenario_opts \<and> (llmConfig scenario_opts \<noteq> None \<or> loadedEngine no_engine)"
    by (simp add: scenario_opts_def)
  have nm: "nat (numMembers scenario_opts) = 3" by (simp add: scenario_opts_def)
  have k: "length (rounds (projr ?run)) = 3" by code_simp
  have kB: "length (rounds (projr ?runB)) = 3" by code_simp
  have keys: "list_all (\<lambda>rd. map fst (rollCall (vote rd)) = [''M-0001'', ''M-0002'', ''M-0003''])
                (rounds (projr ?run))"
    by code_simp
  have keysB: "list_all (\<lambda>rd. map fst (rollCall (vote rd)) = [''M-0001'', ''M-0002'', ''M-0003''])
                (rounds (projr ?runB))"
    by code_simp
  have idsB: "map member_id (members (projr ?runB)) = [''M-0001'', ''M-0002'', ''M-0003'']"
    by code_simp
  have ne: "loadMockDistricts \<noteq> []" by (simp add: loadMockDistricts_def)
  obtain res' where e:
    "runSimulation high_draws loadMockDistricts 1 1 whales_bill False [] (Some 42) world0 = Some (Inr res')"
    using runSimulation_small_ok [OF ne, of 1] by force
  have n: "members res' = 1" using runSimulation_cases [OF e] by simp
  have o: "rounds res' \<noteq> []" using runSimulation_cases [OF e] by auto
  note T = tally_counts [of high_draws loadMockDistricts 1 1 whales_bill False "[]" "Some 42" world0 res'
      scenario_opts no_engine Single scenario_env world0 "projr ?run"]
  note TB = tally_counts [of high_draws loadMockDistricts 1 1 whales_bill False "[]" "Some 42" world0 res'
      scenario_opts no_engine Batch scenario_env world0 "projr ?runB"]
  have E: "\<forall>rd\<in>set (rounds res'). yes (vote rd) + no (vote rd) + abstain (vote rd) = 1"
    using T [THEN conjunct1, THEN mp, OF e] n by simp
  note S = T [THEN conjunct2, THEN mp, OF conjI [OF h [THEN conjunct1] conjI [OF h [THEN conjunct2] r]]]
  note B = TB [THEN conjunct2, THEN mp, OF conjI [OF h [THEN conjunct1] conjI [OF h [THEN conjunct2] rB]]]
  have lS: "length (members (projr ?run)) = 3" using S [THEN conjunct1] nm by simp
  have lB: "length (members (projr ?runB)) = 3" using B [THEN conjunct1] nm by simp
  have cS: "\<forall>rd\<in>set (rounds (projr ?run)).
              yes (vote rd) + no (vote rd) + abstain (vote rd) = 3"
    using S [THEN conjunct2, THEN conjunct2] lS by auto
  have subB: "\<forall>rd\<in>set (rounds (projr ?runB)).
      fst ` set (rollCall (vote rd)) \<subseteq> member_id ` set (members (projr ?runB))"
  proof
    fix rd
    assume "rd \<in> set (rounds (projr ?runB))"
    then have "map fst (rollCall (vote rd)) = map member_id (members (projr ?runB))"
      using keysB idsB by (simp add: list_all_iff)
    then have "set (map fst (rollCall (vote rd))) = set (map member_id (members (projr ?runB)))"
      by simp
    then show "fst ` set (rollCall (vote rd)) \<subseteq> member_id ` set (members (projr ?runB))"
      by simp
  qed
  have cB: "\<forall>rd\<in>set (rounds (projr ?runB)).
              yes (vote rd) + no (vote rd) + abstain (vote rd) = 3"
    using B [THEN conjunct2, THEN conjunct2] subB lB by auto
  show ?thesis using e o E k kB keys keysB cS cB by (simp add: list_all_iff)
qed

text \<open>
  The claim as written fails in the client without the engine: with three members the
  tally is one yes, one no and no abstention, and the roll-call is empty.
\<close>

theorem placeholder_tally_counterexample:
  "(case runSimulationClient Batch quiet_env no_engine heuristic_opts world0 of
      Inl err \<Rightarrow> []
    | Inr res \<Rightarrow>
        map (\<lambda>rd. (yes (vote rd) + no (vote rd) + abstain (vote rd), int (length (members res)),
                    rollCall (vote rd)))
          (rounds res)) = [(2, 3, []), (2, 3, [])]"
  by code_simp

text \<open>
  In the revision that asks for ten votes at a time, the roll-call keeps every id that the
  reply names, and the tally counts them: three members, a reply that names five ids, and
  the tally is three yes to two no, passed, where the three members voted one yes to two
  no.  This is why the theorem asks of that revision that the roll-call name members only.
\<close>

lemma phantom_ballots:
  "(case runSimulationClient Batch phantom_env no_engine one_round_opts world0 of
      Inl err \<Rightarrow> []
    | Inr res \<Rightarrow>
        map (\<lambda>rd. (map member_id (members res), rollCall (vote rd),
                   yes (vote rd), no (vote rd), abstain (vote rd), passed (vote rd)))
          (rounds res))
   = [([''M-0001'', ''M-0002'', ''M-0003''],
       [(''M-0001'', No), (''M-0002'', No), (''M-0003'', Yes), (''M-0004'', Yes), (''M-0005'', Yes)],
       3, 2, 0, True)]"
  by code_simp

section \<open>C7: the inference-backed decision\<close>

lemma decideVote_failures:
  "fetch_generate e (fetch_calls w) = Rejects \<Longrightarrow> is_local_model l \<Longrightarrow>
     fst (decideVote e m b True l w) = abstain_decision ''Error in decision process.''"
  "\<not> is_local_model l \<Longrightarrow>
     fst (decideVote e m b True l w) = abstain_decision ''Error in decision process.''"
  "fetch_generate e (fetch_calls w) = Response ok None \<Longrightarrow> is_local_model l \<Longrightarrow>
     fst (decideVote e m b True l w) = abstain_decision ''Failed to parse reasoning.''"
  "fetch_generate e (fetch_calls w) = Response ok (Some txt) \<Longrightarrow> is_local_model l \<Longrightarrow>
     JSON_parse e (trim (remove_all ''```'' (remove_all ''```json'' txt))) = None \<Longrightarrow>
     fst (decideVote e m b True l w) = abstain_decision ''Failed to parse reasoning.''"
  by (simp_all add: decideVote_def fetch_def parse_decision_def)

text \<open>
  C7 asks that the inference-backed \<^verbatim>\<open>decideVote\<close> never throws, answers \<^verbatim>\<open>abstain\<close>
  with a rationale on every failure, and always returns one of \<^verbatim>\<open>yes\<close>, \<^verbatim>\<open>no\<close>,
  \<^verbatim>\<open>abstain\<close> with a rationale string.  The function never throws and the failures named
  do give \<^verbatim>\<open>abstain\<close> (lemma \<open>decideVote_failures\<close>), but a reply that parses and carries
  any string under \<^verbatim>\<open>vote\<close> is returned as it is, in lower case, with whatever is
  under \<^verbatim>\<open>rationale\<close>: for the reply \<^verbatim>\<open>{"vote": "Maybe"}\<close> the vote is \<^verbatim>\<open>maybe\<close> and
  the rationale is \<^verbatim>\<open>undefined\<close>.
\<close>

theorem decideVote_returns_invalid_vote:
  "vote' (fst (decideVote maybe_env mockMember whales_bill True ''llama3.2'' world0)) = ''maybe''
   \<and> rationale' (fst (decideVote maybe_env mockMember whales_bill True ''llama3.2'' world0)) = None
   \<and> ''maybe'' \<notin> {''yes'', ''no'', ''abstain''}"
  by code_simp

section \<open>C8: a failing amendment call\<close>

lemma generateAmendment_throws:
  "chat e (chat_calls w) = Throws \<Longrightarrow> generateAmendment e b sps f w = Inl EngineError"
  by (simp add: generateAmendment_def chat_create_def)

lemma generateAmendment_fallback:
  "chat e (chat_calls w) = Content None \<or> chat e (chat_calls w) = Content (Some [])
     \<Longrightarrow> generateAmendment e b sps f w =
           Inr (''Add a budgetary oversight committee to monitor spending.'',
                w\<lparr>chat_calls := Suc (chat_calls w)\<rparr>)"
  by (auto simp: generateAmendment_def chat_create_def or_default_def)

lemma conclude_round_amendment_throws:
  assumes "\<not> passed voteRes" and "r < R - 1" and "chat e (chat_calls w2) = Throws"
  shows "conclude_round e True R r st sps voteRes w2 = Inl EngineError"
  using assms by (simp add: conclude_round_def Let_def generateAmendment_throws)

text \<open>
  C8 asks that a failure of amendment generation after a failed, non-final round is
  absorbed by a fixed generic amendment, so that the run goes on.  \<^verbatim>\<open>generateAmendment\<close>
  substitutes the generic text when the reply has no content, but it does not catch a
  call that throws, and neither does its caller: in the run below the first round fails,
  the engine throws when asked for the amendment, and the whole run ends with that
  exception.
\<close>

theorem amendment_failure_aborts_run:
  "runSimulationClient Batch amendment_throws_env no_engine scenario_opts world0 = Inl EngineError"
  by code_simp

section \<open>C9: the shape of a result\<close>

text \<open>
  C9 (as amended).  For every completed run of the client orchestrator and of the engine:
  the round list is non-empty when at least one round is allowed and empty otherwise, its
  length is at most the number of rounds allowed, the round at position \<open>i\<close> has index
  \<open>i\<close>, and \<open>final_passed\<close> holds exactly when there is a last round and its tally passed.
\<close>

theorem rounds_well_formed:
  "(runSimulationClient rv e g opts w = Inr res \<longrightarrow>
        (0 < rounds_opt opts \<longrightarrow> rounds res \<noteq> [])
      \<and> (rounds_opt opts \<le> 0 \<longrightarrow> rounds res = [])
      \<and> length (rounds res) \<le> nat (rounds_opt opts)
      \<and> (\<forall>i<length (rounds res). round_index (rounds res ! i) = int i)
      \<and> final_passed res = (rounds res \<noteq> [] \<and> passed (vote (last (rounds res)))))
   \<and> (runSimulation e' ds n R b u l seed w' = Some (Inr res') \<longrightarrow>
        (0 < R \<longrightarrow> rounds res' \<noteq> [])
      \<and> (R \<le> 0 \<longrightarrow> rounds res' = [])
      \<and> length (rounds res') \<le> nat R
      \<and> (\<forall>i<length (rounds res'). round_index (rounds res' ! i) = int i)
      \<and> final_passed res' = (rounds res' \<noteq> [] \<and> passed (vote (last (rounds res')))))"
proof (intro conjI impI)
  assume run: "runSimulationClient rv e g opts w = Inr res"
  from client_run_trace [OF run, where Q = "\<lambda>rd. True"]
  have ix: "\<forall>i<length (rounds res). round_index (rounds res ! i) = int i"
    and len: "length (rounds res) \<le> nat (rounds_opt opts)"
    and ne: "0 < rounds_opt opts \<longrightarrow> rounds res \<noteq> []"
    and fp: "final_passed res = final_passed_of (rounds res)"
    by simp_all
  show "rounds res \<noteq> []" if "0 < rounds_opt opts" using ne that by simp
  show "rounds res = []" if "rounds_opt opts \<le> 0" using len that by simp
  show "length (rounds res) \<le> nat (rounds_opt opts)" by (rule len)
  show "\<forall>i<length (rounds res). round_index (rounds res ! i) = int i" by (rule ix)
  show "final_passed res = (rounds res \<noteq> [] \<and> passed (vote (last (rounds res))))"
    unfolding fp by (cases "rounds res = []") (simp_all add: final_passed_of_Nil final_passed_of_last)
next
  assume run: "runSimulation e' ds n R b u l seed w' = Some (Inr res')"
  from runSimulation_cases [OF run]
  have c: "(\<not> 0 < R \<and> rounds res' = [] \<and> \<not> final_passed res')
         \<or> (0 < R \<and> (\<exists>rd. round_index rd = 0 \<and> rounds res' = [rd] \<and> final_passed res' = passed (vote rd)))"
    by (auto dest!: engine_round_shape)
  show "rounds res' \<noteq> []" if "0 < R" using c that by auto
  show "rounds res' = []" if "R \<le> 0" using c that by auto
  show "length (rounds res') \<le> nat R" using c by auto
  show "\<forall>i<length (rounds res'). round_index (rounds res' ! i) = int i" using c by auto
  show "final_passed res' = (rounds res' \<noteq> [] \<and> passed (vote (last (rounds res'))))"
    using c by auto
qed

theorem rounds_well_formed_witness:
  "length (rounds (projr (runSimulationClient Batch scenario_env no_engine scenario_opts world0))) \<le> 3
   \<and> rounds (projr (runSimulationClient Batch scenario_env no_engine scenario_opts world0)) \<noteq> []
   \<and> final_passed (projr (runSimulationClient Batch scenario_env no_engine scenario_opts world0))
       = passed (vote (last (rounds (projr (runSimulationClient Batch scenario_env no_engine scenario_opts world0)))))
   \<and> (case runSimulation high_draws loadMockDistricts 1 2 whales_bill False [] (Some 42) world0 of
         Some (Inr res) \<Rightarrow> rounds res \<noteq> [] \<and> length (rounds res) \<le> 2
                           \<and> final_passed res = passed (vote (last (rounds res)))
       | _ \<Rightarrow> False)"
proof -
  let ?run = "runSimulationClient Batch scenario_env no_engine scenario_opts world0"
  have r: "?run = Inr (projr ?run)" by code_simp
  have R: "rounds_opt scenario_opts = 3" by (simp add: scenario_opts_def)
  have ne: "loadMockDistricts \<noteq> []" by (simp add: loadMockDistricts_def)
  obtain res' where e:
    "runSimulation high_draws loadMockDistricts 1 2 whales_bill False [] (Some 42) world0 = Some (Inr res')"
    using runSimulation_small_ok [OF ne, of 1] by force
  from rounds_well_formed [of Batch scenario_env no_engine scenario_opts world0 "projr ?run"
      high_draws loadMockDistricts 1 2 whales_bill False "[]" "Some 42" world0 res'] r R e
  show ?thesis by auto
qed

text \<open>
  The claim as written promises a non-empty round list for every completed run.  With
  \<^verbatim>\<open>rounds = 0\<close> the loop body never runs and the result has no round; both orchestrators
  guard the read of the last round for this case.
\<close>

theorem no_rounds_counterexample:
  "(case runSimulationClient Batch quiet_env no_engine (heuristic_opts\<lparr>rounds_opt := 0\<rparr>) world0 of
      Inl err \<Rightarrow> None | Inr res \<Rightarrow> Some (rounds res, final_passed res)) = Some ([], False)"
  by code_simp

end
